theory Spec2Isabelle
  imports Main "HOL-Library.Sublist"
begin

section \<open>lib/fastdom.js: the scheduler with job ids\<close>

text \<open>
  The scheduler batches DOM reads and writes: jobs are registered under numeric ids,
  their ids are queued per class, and one animation-frame callback runs the read queue
  and then the write queue.

  Callbacks are user code. A callback is modelled by what it does to the scheduler: a
  finite script of calls of the public API (\<open>read\<close>, \<open>write\<close>, \<open>clear\<close>,
  \<open>defer\<close>), ended early by a \<open>throw\<close>. The callbacks a script submits are part
  of the script, so a callback cannot submit itself again. Object references (the
  \<open>ctx\<close> arguments) are natural numbers; a missing \<open>ctx\<close> is \<open>None\<close>.
\<close>

datatype action =
    ARead "action list" "nat option"
  | AWrite "action list" "nat option"
  | AClear nat
  | ADefer int "action list" "nat option"
  | AThrow nat

type_synonym callback = "action list"

text \<open>The keys of \<open>this.queue\<close>, and the values of \<open>job.type\<close>.\<close>

datatype queue_name = QRead | QWrite

datatype job_type = Queued queue_name | Deferred

text \<open>\<open>this.mode\<close> is \<open>null\<close> (\<open>None\<close>), \<open>'reading'\<close> or \<open>'writing'\<close>.\<close>

datatype mode = Reading | Writing

text \<open>
  What a call can throw: a value thrown by user code, or the \<open>TypeError\<close> of reading a
  property of \<open>undefined\<close>.
\<close>

datatype err = Thrown nat | TypeError

record job =
  job_id :: nat
  fn :: callback
  ctx :: "nat option"
  jtype :: job_type
  timer :: "nat option"

text \<open>
  The callbacks handed to \<open>requestAnimationFrame\<close>: the closure
  \<open>function() { self._frame(); }\<close> of \<open>_request\<close>, and the closure \<open>wrapped\<close> of
  \<open>defer\<close> with the variables it captures (the job's id, the current value of
  \<open>frames\<close>, \<open>fn\<close> and \<open>ctx\<close>).
\<close>

datatype frame_cb = FrameCb | Wrapped nat int callback "nat option"

text \<open>
  What an observer sees: a job's callback called (with the job's type, its id and the
  receiver of the call), a failure handed to \<open>onError\<close>, a failure that leaves a
  frame callback and reaches the host, and the calls a running callback makes: a job it
  submits to a queue, an id it passes to \<open>clear\<close>.
\<close>

datatype receiver = This | Ctx nat | Undefined

datatype event =
    Invoke job_type nat receiver
  | Handled err
  | Uncaught err
  | Submitted queue_name nat
  | Cleared nat

text \<open>
  The fields of a \<open>FastDom\<close> instance, followed by the host's part of the state: the
  frame callbacks requested and not yet run (with their handles, in the order of the
  requests), the next handle, and the trace of events. \<open>onError\<close> is whether a handler is
  set; the handler is an observer that records the failure and returns.
\<close>

record fastdom =
  lastId :: nat
  jobs :: "nat \<Rightarrow> job option"
  mode :: "mode option"
  pending :: bool
  queue_read :: "nat list"
  queue_write :: "nat list"
  onError :: bool
  rafs :: "(nat \<times> frame_cb) list"
  next_handle :: nat
  trace :: "event list"

definition new_FastDom :: "bool \<Rightarrow> fastdom" where
  "new_FastDom h =
     \<lparr> lastId = 0, jobs = (\<lambda>_. None), mode = None, pending = False,
       queue_read = [], queue_write = [], onError = h,
       rafs = [], next_handle = 1, trace = [] \<rparr>"

fun queue :: "queue_name \<Rightarrow> fastdom \<Rightarrow> nat list" where
  "queue QRead s = queue_read s"
| "queue QWrite s = queue_write s"

fun set_queue :: "queue_name \<Rightarrow> nat list \<Rightarrow> fastdom \<Rightarrow> fastdom" where
  "set_queue QRead xs s = s\<lparr>queue_read := xs\<rparr>"
| "set_queue QWrite xs s = s\<lparr>queue_write := xs\<rparr>"

definition log :: "event \<Rightarrow> fastdom \<Rightarrow> fastdom" where
  "log e s = s\<lparr>trace := trace s @ [e]\<rparr>"

text \<open>The host: \<open>raf\<close> registers a frame callback and returns its handle, \<open>caf\<close> cancels.\<close>

definition raf :: "frame_cb \<Rightarrow> fastdom \<Rightarrow> nat \<times> fastdom" where
  "raf cb s =
     (next_handle s,
      s\<lparr>rafs := rafs s @ [(next_handle s, cb)], next_handle := Suc (next_handle s)\<rparr>)"

definition caf :: "nat option \<Rightarrow> fastdom \<Rightarrow> fastdom" where
  "caf h s =
     (case h of None \<Rightarrow> s
      | Some k \<Rightarrow> s\<lparr>rafs := filter (\<lambda>p. fst p \<noteq> k) (rafs s)\<rparr>)"

text \<open>\<open>_uniqueId\<close>: \<open>return ++this.lastId\<close>.\<close>

definition uniqueId :: "fastdom \<Rightarrow> nat \<times> fastdom" where
  "uniqueId s = (Suc (lastId s), s\<lparr>lastId := Suc (lastId s)\<rparr>)"

text \<open>\<open>_add\<close>: a fresh id, and the job stored under it.\<close>

definition add :: "job_type \<Rightarrow> callback \<Rightarrow> nat option \<Rightarrow> fastdom \<Rightarrow> job \<times> fastdom" where
  "add t f c s =
     (let (i, s1) = uniqueId s;
          j = \<lparr> job_id = i, fn = f, ctx = c, jtype = t, timer = None \<rparr>
      in (j, s1\<lparr>jobs := (jobs s1)(i \<mapsto> j)\<rparr>))"

text \<open>\<open>_request\<close>: the four guards in the order of the source, then the frame request.\<close>

definition request :: "queue_name \<Rightarrow> fastdom \<Rightarrow> fastdom" where
  "request t s =
     (if mode s = Some Writing \<and> t = QWrite then s
      else if mode s = Some Reading \<and> t = QRead then s
      else if mode s = Some Reading \<and> t = QWrite then s
      else if pending s then s
      else (snd (raf FrameCb s))\<lparr>pending := True\<rparr>)"

definition read :: "callback \<Rightarrow> nat option \<Rightarrow> fastdom \<Rightarrow> nat \<times> fastdom" where
  "read f c s =
     (let (j, s1) = add (Queued QRead) f c s;
          s2 = s1\<lparr>queue_read := queue_read s1 @ [job_id j]\<rparr>
      in (job_id j, request QRead s2))"

definition "write" :: "callback \<Rightarrow> nat option \<Rightarrow> fastdom \<Rightarrow> nat \<times> fastdom" where
  "write f c s =
     (let (j, s1) = add (Queued QWrite) f c s;
          s2 = s1\<lparr>queue_write := queue_write s1 @ [job_id j]\<rparr>
      in (job_id j, request QWrite s2))"

text \<open>
  \<open>clear\<close>: an unknown id returns at once; a deferred job only has its frame callback
  cancelled and the function returns; a queued job loses its first occurrence in its
  queue (\<open>indexOf\<close>, \<open>splice\<close>) and its record.
\<close>

definition clear :: "nat \<Rightarrow> fastdom \<Rightarrow> fastdom" where
  "clear i s =
     (case jobs s i of
        None \<Rightarrow> s
      | Some j \<Rightarrow>
          (case jtype j of
             Deferred \<Rightarrow> caf (timer j) s
           | Queued q \<Rightarrow>
               (set_queue q (remove1 i (queue q s)) s)\<lparr>jobs := (jobs s)(i := None)\<rparr>))"

text \<open>
  \<open>job.timer = raf(wrapped)\<close> writes to the job object that \<open>defer\<close> created, which is
  the one the registry holds under the job's id for as long as it holds one.
\<close>

definition set_timer :: "nat \<Rightarrow> nat \<Rightarrow> fastdom \<Rightarrow> fastdom" where
  "set_timer i h s =
     (case jobs s i of
        None \<Rightarrow> s
      | Some j \<Rightarrow> s\<lparr>jobs := (jobs s)(i \<mapsto> j\<lparr>timer := Some h\<rparr>)\<rparr>)"

text \<open>
  Running a callback's script, the closure \<open>wrapped\<close> and \<open>defer\<close> call each other:
  \<open>defer\<close> calls \<open>wrapped\<close> at once, and \<open>wrapped\<close> calls \<open>fn\<close> when \<open>frames\<close> is 0.
  In \<open>wrapped\<close>, \<open>frames-- === 0\<close> compares the old value and decrements. The
  \<open>catch\<close> block of \<open>wrapped\<close> reads \<open>this.onError\<close>, where \<open>this\<close> is
  \<open>undefined\<close> (a plain call in strict code): a failure of \<open>fn\<close> becomes a
  \<open>TypeError\<close> that leaves \<open>wrapped\<close>.
\<close>

fun exec :: "callback \<Rightarrow> fastdom \<Rightarrow> err option \<times> fastdom"
  and wrapped :: "nat \<Rightarrow> int \<Rightarrow> callback \<Rightarrow> nat option \<Rightarrow> fastdom \<Rightarrow> err option \<times> fastdom"
  and "defer" :: "int \<Rightarrow> callback \<Rightarrow> nat option \<Rightarrow> fastdom \<Rightarrow> (err + nat option) \<times> fastdom"
where
  "exec [] s = (None, s)"
| "exec (ARead f c # as) s =
     (case read f c s of (i, s') \<Rightarrow> exec as (log (Submitted QRead i) s'))"
| "exec (AWrite f c # as) s =
     (case write f c s of (i, s') \<Rightarrow> exec as (log (Submitted QWrite i) s'))"
| "exec (AClear i # as) s = exec as (clear i (log (Cleared i) s))"
| "exec (ADefer n f c # as) s =
     (case defer n f c s of
        (Inl e, s') \<Rightarrow> (Some e, s')
      | (Inr r, s') \<Rightarrow> exec as s')"
| "exec (AThrow e # as) s = (Some (Thrown e), s)"
| "wrapped i frames f c s =
     (if frames = 0 then
        (case exec f (log (Invoke Deferred i
                              (case c of None \<Rightarrow> Undefined | Some x \<Rightarrow> Ctx x)) s) of
           (None, s') \<Rightarrow> (None, s')
         | (Some e, s') \<Rightarrow> (Some TypeError, s'))
      else
        (case raf (Wrapped i (frames - 1) f c) s of
           (h, s') \<Rightarrow> (None, set_timer i h s')))"
| "defer frames f c s =
     (if frames < 0 then (Inr None, s)
      else
        (case add Deferred f None s of
           (j, s1) \<Rightarrow>
             (case wrapped (job_id j) frames f c s1 of
                (Some e, s2) \<Rightarrow> (Inl e, s2)
              | (None, s2) \<Rightarrow> (Inr (Some (job_id j)), s2))))"

text \<open>
  \<open>_run\<close> works on the queue itself, not on a copy: \<open>list.shift()\<close> takes the first id
  of the queue as it is at that moment. The loop test is the truthiness of the id, so it
  stops on an empty queue (\<open>undefined\<close>) and on the id 0. \<open>job.ctx\<close> of a missing job
  is a \<open>TypeError\<close> outside the \<open>try\<close>. The receiver is \<open>job.ctx || this\<close>. A failure of
  the callback goes to \<open>onError\<close> if it is set and is dropped otherwise.
\<close>

partial_function (option) run :: "queue_name \<Rightarrow> fastdom \<Rightarrow> (err option \<times> fastdom) option" where
  "run q s =
     (case queue q s of
        [] \<Rightarrow> Some (None, s)
      | i # rest \<Rightarrow>
          (if i = 0 then Some (None, set_queue q rest s)
           else
             (case jobs s i of
                None \<Rightarrow> Some (Some TypeError, set_queue q rest s)
              | Some j \<Rightarrow>
                  (case exec (fn j)
                          (log (Invoke (jtype j) i
                                  (case ctx j of None \<Rightarrow> This | Some x \<Rightarrow> Ctx x))
                             ((set_queue q rest s)\<lparr>jobs := (jobs s)(i := None)\<rparr>)) of
                     (None, s') \<Rightarrow> run q s'
                   | (Some e, s') \<Rightarrow>
                       run q (if onError s' then log (Handled e) s' else s')))))"

declare run.simps [code]

text \<open>
  \<open>_frame\<close>: a failure that leaves \<open>_run\<close> leaves \<open>_frame\<close> too, with the mode as it
  was set.
\<close>

definition frame :: "fastdom \<Rightarrow> (err option \<times> fastdom) option" where
  "frame s =
     (case run QRead (s\<lparr>pending := False, mode := Some Reading\<rparr>) of
        None \<Rightarrow> None
      | Some (Some e, s1) \<Rightarrow> Some (Some e, s1)
      | Some (None, s1) \<Rightarrow>
          (case run QWrite (s1\<lparr>mode := Some Writing\<rparr>) of
             None \<Rightarrow> None
           | Some (Some e, s2) \<Rightarrow> Some (Some e, s2)
           | Some (None, s2) \<Rightarrow> Some (None, s2\<lparr>mode := None\<rparr>)))"

text \<open>
  The host's frame: the callbacks requested before the frame are run in the order of
  their requests, each one unless it has been cancelled meanwhile; callbacks requested
  during the frame wait for the next one. A failure that leaves a callback is reported
  by the host and the frame goes on.
\<close>

definition call_frame_cb :: "frame_cb \<Rightarrow> fastdom \<Rightarrow> (err option \<times> fastdom) option" where
  "call_frame_cb cb s =
     (case cb of
        FrameCb \<Rightarrow> frame s
      | Wrapped i n f c \<Rightarrow> Some (wrapped i n f c s))"

fun run_handles :: "nat list \<Rightarrow> fastdom \<Rightarrow> fastdom option" where
  "run_handles [] s = Some s"
| "run_handles (h # hs) s =
     (case map_of (rafs s) h of
        None \<Rightarrow> run_handles hs s
      | Some cb \<Rightarrow>
          (case call_frame_cb cb (s\<lparr>rafs := filter (\<lambda>p. fst p \<noteq> h) (rafs s)\<rparr>) of
             None \<Rightarrow> None
           | Some (None, s') \<Rightarrow> run_handles hs s'
           | Some (Some e, s') \<Rightarrow> run_handles hs (log (Uncaught e) s')))"

definition tick :: "fastdom \<Rightarrow> fastdom option" where
  "tick s = run_handles (map fst (rafs s)) s"

fun ticks :: "nat \<Rightarrow> fastdom \<Rightarrow> fastdom option" where
  "ticks 0 s = Some s"
| "ticks (Suc n) s = (case tick s of None \<Rightarrow> None | Some s' \<Rightarrow> ticks n s')"

text \<open>
  The code that uses the scheduler runs in turns between the host's frames. A turn is a
  script like a callback's; a failure that leaves it reaches the host.
\<close>

definition turn :: "callback \<Rightarrow> fastdom \<Rightarrow> fastdom" where
  "turn acts s =
     (case exec acts s of
        (None, s') \<Rightarrow> s'
      | (Some e, s') \<Rightarrow> log (Uncaught e) s')"

datatype step = Turn callback | Tick

fun apply_step :: "step \<Rightarrow> fastdom \<Rightarrow> fastdom option" where
  "apply_step (Turn acts) s = Some (turn acts s)"
| "apply_step Tick s = tick s"

fun apply_steps :: "step list \<Rightarrow> fastdom \<Rightarrow> fastdom option" where
  "apply_steps [] s = Some s"
| "apply_steps (x # xs) s =
     (case apply_step x s of None \<Rightarrow> None | Some s' \<Rightarrow> apply_steps xs s')"

inductive reachable :: "fastdom \<Rightarrow> bool" where
  init: "reachable (new_FastDom h)"
| step: "reachable s \<Longrightarrow> apply_step x s = Some s' \<Longrightarrow> reachable s'"

section \<open>The bundled build: FastDom with sandboxes\<close>

text \<open>
  The bundled build keeps the task objects themselves in two arrays, and a task is
  cancelled by its identity. A task is the object \<open>{ fn, ctx }\<close> that \<open>measure\<close> or
  \<open>mutate\<close> creates; the functions modelled here never look into it, so a task is the
  reference of its object, a natural number, and \<open>undefined\<close> is \<open>None\<close>. The host's
  part of the state is the list of the callbacks handed to \<open>setTimeout\<close> and to
  \<open>raf\<close>, and the next free reference.
\<close>

datatype host_cb = Timeout_flushReads | Raf_flush

record fastdom_v1 =
  reads :: "nat list"
  writes :: "nat list"
  scheduled :: bool
  scheduledRead :: bool
  host_cbs :: "host_cb list"
  next_task :: nat

definition new_FastDom_v1 :: fastdom_v1 where
  "new_FastDom_v1 =
     \<lparr> reads = [], writes = [], scheduled = False, scheduledRead = False,
       host_cbs = [], next_task = 0 \<rparr>"

definition scheduleFlush :: "fastdom_v1 \<Rightarrow> fastdom_v1" where
  "scheduleFlush fd =
     (if scheduled fd then fd
      else fd\<lparr>scheduled := True, host_cbs := host_cbs fd @ [Raf_flush]\<rparr>)"

definition scheduleReadFlush :: "fastdom_v1 \<Rightarrow> fastdom_v1" where
  "scheduleReadFlush fd =
     (if scheduledRead fd then fd
      else scheduleFlush
             (fd\<lparr>scheduledRead := True, host_cbs := host_cbs fd @ [Timeout_flushReads]\<rparr>))"

text \<open>\<open>FastDom.prototype.measure\<close> and \<open>mutate\<close>: a new task, pushed and returned.\<close>

definition fd_measure :: "fastdom_v1 \<Rightarrow> nat \<times> fastdom_v1" where
  "fd_measure fd =
     (next_task fd,
      scheduleReadFlush (fd\<lparr>next_task := Suc (next_task fd), reads := reads fd @ [next_task fd]\<rparr>))"

definition fd_mutate :: "fastdom_v1 \<Rightarrow> nat \<times> fastdom_v1" where
  "fd_mutate fd =
     (next_task fd,
      scheduleFlush (fd\<lparr>next_task := Suc (next_task fd), writes := writes fd @ [next_task fd]\<rparr>))"

text \<open>
  \<open>FastDom.prototype.clear\<close>: the first occurrence of the task is spliced out of
  \<open>reads\<close>, or else out of \<open>writes\<close>. No array holds \<open>undefined\<close>, so
  \<open>indexOf(undefined)\<close> is -1 in both.
\<close>

definition fd_clear :: "nat option \<Rightarrow> fastdom_v1 \<Rightarrow> fastdom_v1" where
  "fd_clear task fd =
     (case task of
        None \<Rightarrow> fd
      | Some t \<Rightarrow>
          if t \<in> set (reads fd) then fd\<lparr>reads := remove1 t (reads fd)\<rparr>
          else if t \<in> set (writes fd) then fd\<lparr>writes := remove1 t (writes fd)\<rparr>
          else fd)"

text \<open>
  A sandbox holds the shared \<open>FastDom\<close> and its own two arrays of the tasks it
  submitted. Its functions take and return the sandbox's arrays and the \<open>FastDom\<close>.
\<close>

record sandbox =
  sb_reads :: "nat list"
  sb_writes :: "nat list"

definition new_Sandbox :: sandbox where
  "new_Sandbox = \<lparr> sb_reads = [], sb_writes = [] \<rparr>"

definition sandbox_measure :: "sandbox \<times> fastdom_v1 \<Rightarrow> nat \<times> sandbox \<times> fastdom_v1" where
  "sandbox_measure p =
     (case fd_measure (snd p) of
        (task, fd) \<Rightarrow> (task, (fst p)\<lparr>sb_reads := sb_reads (fst p) @ [task]\<rparr>, fd))"

definition sandbox_mutate :: "sandbox \<times> fastdom_v1 \<Rightarrow> nat \<times> sandbox \<times> fastdom_v1" where
  "sandbox_mutate p =
     (case fd_mutate (snd p) of
        (task, fd) \<Rightarrow> (task, (fst p)\<lparr>sb_writes := sb_writes (fst p) @ [task]\<rparr>, fd))"

text \<open>
  \<open>clearAll\<close>: \<open>for (var i = 0, l = tasks.length; i < l; i++)\<close> with the body
  \<open>fastdom.clear(tasks[i]); tasks.splice(i, 1)\<close>. The bound \<open>l\<close> is read once;
  \<open>tasks[i]\<close> beyond the end of the array is \<open>undefined\<close>, and \<open>splice(i, 1)\<close>
  there removes nothing.
\<close>

definition element :: "nat list \<Rightarrow> nat \<Rightarrow> nat option" where
  "element tasks i = (if i < length tasks then Some (tasks ! i) else None)"

definition splice1 :: "nat \<Rightarrow> nat list \<Rightarrow> nat list" where
  "splice1 i tasks = take i tasks @ drop (Suc i) tasks"

function clearAll_from :: "nat \<Rightarrow> nat \<Rightarrow> nat list \<Rightarrow> fastdom_v1 \<Rightarrow> nat list \<times> fastdom_v1" where
  "clearAll_from i l tasks fd =
     (if i < l then clearAll_from (Suc i) l (splice1 i tasks) (fd_clear (element tasks i) fd)
      else (tasks, fd))"
  by pat_completeness auto
termination
  by (relation "measure (\<lambda>(i, l, tasks, fd). l - i)") auto

definition clearAll :: "fastdom_v1 \<Rightarrow> nat list \<Rightarrow> nat list \<times> fastdom_v1" where
  "clearAll fd tasks = clearAll_from 0 (length tasks) tasks fd"

text \<open>
  \<open>Sandbox.prototype.clear\<close>: with a task, only \<open>fastdom.clear(task)\<close>; with none,
  \<open>clearAll\<close> on the writes and then on the reads.
\<close>

definition sandbox_clear :: "nat option \<Rightarrow> sandbox \<times> fastdom_v1 \<Rightarrow> sandbox \<times> fastdom_v1" where
  "sandbox_clear task p =
     (case task of
        Some t \<Rightarrow> (fst p, fd_clear (Some t) (snd p))
      | None \<Rightarrow>
          (case clearAll (snd p) (sb_writes (fst p)) of
             (ws, fd1) \<Rightarrow>
               (case clearAll fd1 (sb_reads (fst p)) of
                  (rs, fd2) \<Rightarrow> ((fst p)\<lparr>sb_writes := ws, sb_reads := rs\<rparr>, fd2))))"

section \<open>Invariants and what a step can do\<close>

text \<open>
  The definitions of this section are not code of the scheduler. They state the
  invariant that every state the scheduler reaches satisfies, and relate the state
  before a callback, a drain, a frame or a host frame to the state after it.
\<close>

fun invoked :: "event list \<Rightarrow> nat list" where
  "invoked [] = []"
| "invoked (Invoke t i r # es) = i # invoked es"
| "invoked (e # es) = invoked es"

definition wf_q :: "fastdom \<Rightarrow> bool" where
  "wf_q s \<longleftrightarrow>
     distinct (queue_read s @ queue_write s) \<and>
     (\<forall>q i. i \<in> set (queue q s) \<longleftrightarrow> (\<exists>j. jobs s i = Some j \<and> jtype j = Queued q)) \<and>
     (\<forall>i j. jobs s i = Some j \<longrightarrow> 0 < i \<and> i \<le> lastId s)"

definition wf_h1 :: "fastdom \<Rightarrow> bool" where
  "wf_h1 s \<longleftrightarrow> distinct (map fst (rafs s)) \<and> (\<forall>p \<in> set (rafs s). fst p < next_handle s)"

definition wf_h2 :: "fastdom \<Rightarrow> bool" where
  "wf_h2 s \<longleftrightarrow>
     (\<forall>h i n f c. (h, Wrapped i n f c) \<in> set (rafs s) \<longrightarrow>
        0 \<le> n \<and> (\<exists>j. jobs s i = Some j \<and> timer j = Some h))"

definition wf_h3 :: "fastdom \<Rightarrow> bool" where
  "wf_h3 s \<longleftrightarrow>
     (\<forall>i j h. jobs s i = Some j \<longrightarrow> timer j = Some h \<longrightarrow>
        jtype j = Deferred \<and> h < next_handle s \<and>
        (\<forall>cb. (h, cb) \<in> set (rafs s) \<longrightarrow> (\<exists>n f c. cb = Wrapped i n f c)))"

definition wf_h4 :: "fastdom \<Rightarrow> bool" where
  "wf_h4 s \<longleftrightarrow> (pending s \<longrightarrow> (\<exists>h. (h, FrameCb) \<in> set (rafs s)))"

definition wf_h :: "fastdom \<Rightarrow> bool" where
  "wf_h s \<longleftrightarrow> wf_h1 s \<and> wf_h2 s \<and> wf_h3 s \<and> wf_h4 s"

definition wf_t :: "fastdom \<Rightarrow> bool" where
  "wf_t s \<longleftrightarrow>
     distinct (invoked (trace s)) \<and>
     (\<forall>i \<in> set (invoked (trace s)).
        i \<le> lastId s \<and> i \<notin> set (queue_read s @ queue_write s) \<and>
        (\<forall>h n f c. (h, Wrapped i n f c) \<notin> set (rafs s)))"

definition wf :: "fastdom \<Rightarrow> bool" where
  "wf s \<longleftrightarrow> wf_q s \<and> wf_h s \<and> wf_t s"

definition requests :: "queue_name \<Rightarrow> fastdom \<Rightarrow> bool" where
  "requests t s \<longleftrightarrow> \<not> pending s \<and> mode s \<noteq> Some Reading \<and> \<not> (mode s = Some Writing \<and> t = QWrite)"

definition evs :: "fastdom \<Rightarrow> fastdom \<Rightarrow> event list" where
  "evs s s' = drop (length (trace s)) (trace s')"

definition ext :: "fastdom \<Rightarrow> fastdom \<Rightarrow> bool" where
  "ext s s' \<longleftrightarrow> trace s' = trace s @ evs s s'"

text \<open>What the calls made by a running callback can do to the state.\<close>

definition R0 :: "fastdom \<Rightarrow> fastdom \<Rightarrow> bool" where
  "R0 s s' \<longleftrightarrow>
     ext s s' \<and> lastId s \<le> lastId s' \<and> next_handle s \<le> next_handle s' \<and>
     mode s' = mode s \<and> onError s' = onError s \<and> (pending s \<longrightarrow> pending s')"

definition R1 :: "fastdom \<Rightarrow> fastdom \<Rightarrow> bool" where
  "R1 s s' \<longleftrightarrow>
     (\<forall>e \<in> set (evs s s'). (\<forall>q i r. e \<noteq> Invoke (Queued q) i r) \<and>
        (\<forall>x. e \<noteq> Handled x \<and> e \<noteq> Uncaught x))"

definition R2 :: "fastdom \<Rightarrow> fastdom \<Rightarrow> bool" where
  "R2 s s' \<longleftrightarrow>
     (\<forall>q i. i \<in> set (queue q s') \<longrightarrow> i \<in> set (queue q s) \<or> Submitted q i \<in> set (evs s s')) \<and>
     (\<forall>q i. i \<in> set (queue q s) \<longrightarrow> i \<in> set (queue q s') \<or> Cleared i \<in> set (evs s s')) \<and>
     (\<forall>q i. Submitted q i \<in> set (evs s s') \<longrightarrow>
        lastId s < i \<and> (i \<in> set (queue q s') \<or> Cleared i \<in> set (evs s s')))"

definition R3 :: "fastdom \<Rightarrow> fastdom \<Rightarrow> bool" where
  "R3 s s' \<longleftrightarrow>
     (\<forall>h i n f c. (h, Wrapped i n f c) \<in> set (rafs s) \<longrightarrow>
        (h, Wrapped i n f c) \<in> set (rafs s') \<or> Cleared i \<in> set (evs s s')) \<and>
     (\<forall>h. (h, FrameCb) \<in> set (rafs s) \<longrightarrow> (h, FrameCb) \<in> set (rafs s')) \<and>
     (\<forall>p \<in> set (rafs s'). p \<in> set (rafs s) \<or> next_handle s \<le> fst p)"

definition R4 :: "fastdom \<Rightarrow> fastdom \<Rightarrow> bool" where
  "R4 s s' \<longleftrightarrow>
     (mode s = Some Reading \<longrightarrow> pending s' = pending s \<and>
        (\<forall>h. (h, FrameCb) \<in> set (rafs s') \<longrightarrow> (h, FrameCb) \<in> set (rafs s))) \<and>
     (\<forall>q i. Submitted q i \<in> set (evs s s') \<longrightarrow> mode s \<noteq> Some Reading \<longrightarrow>
        \<not> (mode s = Some Writing \<and> q = QWrite) \<longrightarrow> pending s') \<and>
     (\<not> pending s \<longrightarrow> pending s' \<longrightarrow>
        (\<exists>h. next_handle s \<le> h \<and> (h, FrameCb) \<in> set (rafs s')))"

definition R :: "fastdom \<Rightarrow> fastdom \<Rightarrow> bool" where
  "R s s' \<longleftrightarrow> R0 s s' \<and> R1 s s' \<and> R2 s s' \<and> R3 s s' \<and> R4 s s'"

text \<open>Submitting a read or a write: the registry and the queue, then the request.\<close>

definition enq :: "queue_name \<Rightarrow> callback \<Rightarrow> nat option \<Rightarrow> fastdom \<Rightarrow> fastdom" where
  "enq q f c s =
     set_queue q (queue q s @ [Suc (lastId s)])
       (s\<lparr>lastId := Suc (lastId s),
          jobs := (jobs s)(Suc (lastId s) \<mapsto>
            \<lparr>job_id = Suc (lastId s), fn = f, ctx = c, jtype = Queued q, timer = None\<rparr>)\<rparr>)"

text \<open>Deferring.\<close>

definition addd :: "callback \<Rightarrow> fastdom \<Rightarrow> fastdom" where
  "addd f s = s\<lparr>lastId := Suc (lastId s),
      jobs := (jobs s)(Suc (lastId s) \<mapsto>
        \<lparr>job_id = Suc (lastId s), fn = f, ctx = None, jtype = Deferred, timer = None\<rparr>)\<rparr>"

definition wpre :: "nat \<Rightarrow> fastdom \<Rightarrow> bool" where
  "wpre i s \<longleftrightarrow> (\<exists>j. jobs s i = Some j \<and> jtype j = Deferred) \<and>
     (\<forall>h n f c. (h, Wrapped i n f c) \<notin> set (rafs s)) \<and> i \<notin> set (invoked (trace s))"

definition rereg :: "nat \<Rightarrow> int \<Rightarrow> callback \<Rightarrow> nat option \<Rightarrow> fastdom \<Rightarrow> fastdom" where
  "rereg i n f c s = set_timer i (next_handle s) (snd (raf (Wrapped i n f c) s))"

text \<open>Ids that are out of the scheduler stay out, and are not invoked.\<close>

definition dead :: "nat \<Rightarrow> fastdom \<Rightarrow> bool" where
  "dead i s \<longleftrightarrow> i \<le> lastId s \<and> i \<notin> set (queue_read s @ queue_write s) \<and>
     (\<forall>h n f c. (h, Wrapped i n f c) \<notin> set (rafs s))"

definition R5 :: "nat set \<Rightarrow> fastdom \<Rightarrow> fastdom \<Rightarrow> bool" where
  "R5 X s s' \<longleftrightarrow> (\<forall>i. i \<notin> X \<longrightarrow> dead i s \<longrightarrow> dead i s' \<and> i \<notin> set (invoked (evs s s')))"

text \<open>The work left for a drain: the jobs queued, and the jobs their callbacks can submit.\<close>

fun subs :: "callback \<Rightarrow> nat" where
  "subs [] = 0"
| "subs (ARead f c # as) = Suc (subs f) + subs as"
| "subs (AWrite f c # as) = Suc (subs f) + subs as"
| "subs (AClear i # as) = subs as"
| "subs (ADefer n f c # as) = subs f + subs as"
| "subs (AThrow e # as) = subs as"

definition weight :: "fastdom \<Rightarrow> nat \<Rightarrow> nat" where
  "weight s i = (case jobs s i of None \<Rightarrow> 0 | Some j \<Rightarrow> Suc (subs (fn j)))"

definition W :: "fastdom \<Rightarrow> nat" where
  "W s = sum_list (map (weight s) (queue_read s @ queue_write s))"

text \<open>The same facts for a drain, a frame and everything above: which events may occur is a parameter.\<close>

definition ev_exec :: "event \<Rightarrow> bool" where
  "ev_exec e \<longleftrightarrow> (\<forall>q i r. e \<noteq> Invoke (Queued q) i r) \<and> (\<forall>x. e \<noteq> Handled x \<and> e \<noteq> Uncaught x)"

definition ev_run :: "queue_name \<Rightarrow> event \<Rightarrow> bool" where
  "ev_run q e \<longleftrightarrow> (\<forall>q' i r. e = Invoke (Queued q') i r \<longrightarrow> q' = q) \<and> (\<forall>x. e \<noteq> Uncaught x)"

definition ev_frame :: "event \<Rightarrow> bool" where
  "ev_frame e \<longleftrightarrow> (\<forall>x. e \<noteq> Uncaught x)"

definition R2w :: "fastdom \<Rightarrow> fastdom \<Rightarrow> bool" where
  "R2w s s' \<longleftrightarrow>
     (\<forall>q i. i \<in> set (queue q s') \<longrightarrow> i \<in> set (queue q s) \<or> Submitted q i \<in> set (evs s s')) \<and>
     (\<forall>q i. i \<in> set (queue q s) \<or> Submitted q i \<in> set (evs s s') \<longrightarrow>
        i \<in> set (queue q s') \<or> Cleared i \<in> set (evs s s') \<or>
        (\<exists>r. Invoke (Queued q) i r \<in> set (evs s s')))"

definition Tb :: "(event \<Rightarrow> bool) \<Rightarrow> nat set \<Rightarrow> fastdom \<Rightarrow> fastdom \<Rightarrow> bool" where
  "Tb P X s s' \<longleftrightarrow>
     ext s s' \<and> lastId s \<le> lastId s' \<and> next_handle s \<le> next_handle s' \<and>
     onError s' = onError s \<and> (\<forall>e \<in> set (evs s s'). P e) \<and> R2w s s' \<and> R3 s s' \<and> R5 X s s'"

definition Tm :: "fastdom \<Rightarrow> fastdom \<Rightarrow> bool" where
  "Tm s s' \<longleftrightarrow> ext s s' \<and> mode s' = mode s \<and> (pending s \<longrightarrow> pending s') \<and>
     next_handle s \<le> next_handle s' \<and>
     (\<forall>h. (h, FrameCb) \<in> set (rafs s) \<longrightarrow> (h, FrameCb) \<in> set (rafs s')) \<and> R4 s s'"

text \<open>Taking the first job of a queue.\<close>

definition deq :: "queue_name \<Rightarrow> fastdom \<Rightarrow> fastdom" where
  "deq q s = (set_queue q (tl (queue q s)) s)\<lparr>jobs := (jobs s)(hd (queue q s) := None)\<rparr>"

definition run_post :: "queue_name \<Rightarrow> fastdom \<Rightarrow> fastdom \<Rightarrow> bool" where
  "run_post q s s' \<longleftrightarrow> wf s' \<and> Tb (ev_run q) {} s s' \<and> Tm s s' \<and> queue q s' = []"

text \<open>
  The order of a drain. Of a piece of trace, the ids of the jobs of a queue that were
  invoked, and the ids that were submitted to a queue, each in the order of the events.
\<close>

fun invoked_from :: "queue_name \<Rightarrow> event list \<Rightarrow> nat list" where
  "invoked_from q [] = []"
| "invoked_from q (Invoke (Queued q') i r # es) =
     (if q' = q then i # invoked_from q es else invoked_from q es)"
| "invoked_from q (e # es) = invoked_from q es"

fun submitted_to :: "queue_name \<Rightarrow> event list \<Rightarrow> nat list" where
  "submitted_to q [] = []"
| "submitted_to q (Submitted q' i # es) =
     (if q' = q then i # submitted_to q es else submitted_to q es)"
| "submitted_to q (e # es) = submitted_to q es"

text \<open>
  Between two states, what was invoked from a queue followed by what is still queued
  is a subsequence of what was queued followed by what was submitted: jobs leave a queue
  at its head or by \<open>clear\<close>, and enter it at its end. The ids submitted are new and
  increasing.
\<close>

definition fifo :: "fastdom \<Rightarrow> fastdom \<Rightarrow> bool" where
  "fifo s s' \<longleftrightarrow>
     lastId s \<le> lastId s' \<and>
     (\<forall>q. subseq (invoked_from q (evs s s') @ queue q s') (queue q s @ submitted_to q (evs s s')) \<and>
          sorted_wrt (<) (submitted_to q (evs s s')) \<and>
          (\<forall>i \<in> set (submitted_to q (evs s s')). lastId s < i \<and> i \<le> lastId s'))"

definition frame_post :: "fastdom \<Rightarrow> fastdom \<Rightarrow> bool" where
  "frame_post s s' \<longleftrightarrow> wf s' \<and> Tb ev_frame {} s s' \<and> mode s' = None"

text \<open>The host's frame.\<close>

definition unreg :: "nat \<Rightarrow> fastdom \<Rightarrow> fastdom" where
  "unreg h s = s\<lparr>rafs := filter (\<lambda>p. fst p \<noteq> h) (rafs s)\<rparr>"

definition fired :: "nat set \<Rightarrow> fastdom \<Rightarrow> fastdom \<Rightarrow> bool" where
  "fired H s s' \<longleftrightarrow>
     (\<forall>h i n f c. (h, Wrapped i n f c) \<in> set (rafs s) \<longrightarrow>
        Cleared i \<in> set (evs s s') \<or>
        (if h \<in> H
         then (if n = 0 then (\<exists>r. Invoke Deferred i r \<in> set (evs s s'))
               else (\<exists>h'. next_handle s \<le> h' \<and> (h', Wrapped i (n - 1) f c) \<in> set (rafs s')))
         else (h, Wrapped i n f c) \<in> set (rafs s')))"

definition Tk0 :: "fastdom \<Rightarrow> fastdom \<Rightarrow> bool" where
  "Tk0 s s' \<longleftrightarrow>
     ext s s' \<and> lastId s \<le> lastId s' \<and> next_handle s \<le> next_handle s' \<and>
     onError s' = onError s \<and> R2w s s' \<and> R5 {} s s' \<and> (mode s = None \<longrightarrow> mode s' = None) \<and>
     (\<forall>p \<in> set (rafs s'). p \<in> set (rafs s) \<or> next_handle s \<le> fst p)"

definition Tk :: "nat set \<Rightarrow> fastdom \<Rightarrow> fastdom \<Rightarrow> bool" where
  "Tk H s s' \<longleftrightarrow> Tk0 s s' \<and> fired H s s'"

text \<open>
  The example of the comment above \<open>FastDom.prototype.sandbox\<close>: a sandbox submits two
  measure tasks, two more are submitted to the \<open>FastDom\<close> directly.
\<close>

definition sandbox_example :: "sandbox \<times> fastdom_v1" where
  "sandbox_example =
     (fst (snd (sandbox_measure (snd (sandbox_measure (new_Sandbox, new_FastDom_v1))))),
      snd (fd_measure (snd (fd_measure
        (snd (snd (sandbox_measure (snd (sandbox_measure (new_Sandbox, new_FastDom_v1))))))))))"

section \<open>Proofs\<close>

lemma invoked_append [simp]: "invoked (xs @ ys) = invoked xs @ invoked ys"
  by (induction xs rule: invoked.induct) auto

lemma invoked_iff: "i \<in> set (invoked tr) \<longleftrightarrow> (\<exists>t r. Invoke t i r \<in> set tr)"
  by (induction tr rule: invoked.induct) auto

lemma queue_cases: "(\<forall>q. P q) \<longleftrightarrow> P QRead \<and> P QWrite"
  by (metis (full_types) queue_name.exhaust)

lemma wf_new: "wf (new_FastDom h)"
  unfolding wf_def wf_q_def wf_h_def wf_h1_def wf_h2_def wf_h3_def wf_h4_def wf_t_def queue_cases
  by (simp add: new_FastDom_def)

lemma request_fields [simp]:
  "lastId (request t s) = lastId s"
  "jobs (request t s) = jobs s"
  "mode (request t s) = mode s"
  "queue_read (request t s) = queue_read s"
  "queue_write (request t s) = queue_write s"
  "onError (request t s) = onError s"
  "trace (request t s) = trace s"
  by (simp_all add: request_def raf_def)

lemma request_host:
  "rafs (request t s) = (if requests t s then rafs s @ [(next_handle s, FrameCb)] else rafs s)"
  "next_handle (request t s) = (if requests t s then Suc (next_handle s) else next_handle s)"
  "pending (request t s) = (pending s \<or> requests t s)"
  by (cases t; auto simp: request_def raf_def requests_def)+

lemma read_eq:
  "read f c s = (Suc (lastId s), request QRead
     (s\<lparr>lastId := Suc (lastId s),
        jobs := (jobs s)(Suc (lastId s) \<mapsto>
           \<lparr>job_id = Suc (lastId s), fn = f, ctx = c, jtype = Queued QRead, timer = None\<rparr>),
        queue_read := queue_read s @ [Suc (lastId s)]\<rparr>))"
  by (simp add: read_def add_def uniqueId_def Let_def)

lemma write_eq:
  "write f c s = (Suc (lastId s), request QWrite
     (s\<lparr>lastId := Suc (lastId s),
        jobs := (jobs s)(Suc (lastId s) \<mapsto>
           \<lparr>job_id = Suc (lastId s), fn = f, ctx = c, jtype = Queued QWrite, timer = None\<rparr>),
        queue_write := queue_write s @ [Suc (lastId s)]\<rparr>))"
  by (simp add: write_def add_def uniqueId_def Let_def)

lemma wf_q_read: "wf_q s \<Longrightarrow> wf_q (snd (read f c s))"
  unfolding wf_q_def queue_cases
  by (auto simp: read_eq)

lemma wf_q_write: "wf_q s \<Longrightarrow> wf_q (snd (write f c s))"
  unfolding wf_q_def queue_cases
  by (auto simp: write_eq)

lemma clear_None: "jobs s i = None \<Longrightarrow> clear i s = s"
  by (simp add: clear_def)

lemma clear_read:
  "jobs s i = Some j \<Longrightarrow> jtype j = Queued QRead \<Longrightarrow>
   clear i s = s\<lparr>queue_read := remove1 i (queue_read s), jobs := (jobs s)(i := None)\<rparr>"
  by (simp add: clear_def)

lemma clear_write:
  "jobs s i = Some j \<Longrightarrow> jtype j = Queued QWrite \<Longrightarrow>
   clear i s = s\<lparr>queue_write := remove1 i (queue_write s), jobs := (jobs s)(i := None)\<rparr>"
  by (simp add: clear_def)

lemma clear_deferred:
  "jobs s i = Some j \<Longrightarrow> jtype j = Deferred \<Longrightarrow> clear i s = caf (timer j) s"
  by (simp add: clear_def)

lemma clear_cases [case_names none rd wr deferred]:
  assumes "jobs s i = None \<Longrightarrow> clear i s = s \<Longrightarrow> P"
    and "\<And>j. jobs s i = Some j \<Longrightarrow> jtype j = Queued QRead \<Longrightarrow>
      clear i s = s\<lparr>queue_read := remove1 i (queue_read s), jobs := (jobs s)(i := None)\<rparr> \<Longrightarrow> P"
    and "\<And>j. jobs s i = Some j \<Longrightarrow> jtype j = Queued QWrite \<Longrightarrow>
      clear i s = s\<lparr>queue_write := remove1 i (queue_write s), jobs := (jobs s)(i := None)\<rparr> \<Longrightarrow> P"
    and "\<And>j. jobs s i = Some j \<Longrightarrow> jtype j = Deferred \<Longrightarrow> clear i s = caf (timer j) s \<Longrightarrow> P"
  shows P
proof (cases "jobs s i")
  case None
  then show ?thesis using assms(1) clear_None by blast
next
  case (Some j)
  show ?thesis
  proof (cases "jtype j")
    case (Queued q)
    then show ?thesis using Some assms(2,3) clear_read clear_write by (cases q) blast+
  next
    case Deferred
    then show ?thesis using Some assms(4) clear_deferred by blast
  qed
qed

lemma caf_fields [simp]:
  "lastId (caf h s) = lastId s"
  "jobs (caf h s) = jobs s"
  "mode (caf h s) = mode s"
  "queue_read (caf h s) = queue_read s"
  "queue_write (caf h s) = queue_write s"
  "onError (caf h s) = onError s"
  "trace (caf h s) = trace s"
  "pending (caf h s) = pending s"
  "next_handle (caf h s) = next_handle s"
  by (simp_all add: caf_def split: option.splits)

lemma wf_q_clear: "wf_q s \<Longrightarrow> wf_q (clear i s)"
  by (rule clear_cases[of s i]) (auto simp: wf_q_def queue_cases)

lemma extI: "trace s' = trace s @ tr \<Longrightarrow> ext s s' \<and> evs s s' = tr"
  by (simp add: ext_def evs_def)

lemma ext_refl [simp]: "ext s s" "evs s s = []"
  by (simp_all add: ext_def evs_def)

lemma ext_trans:
  assumes "ext s s'" "ext s' s''"
  shows "ext s s''" "evs s s'' = evs s s' @ evs s' s''"
proof -
  have "trace s'' = trace s @ (evs s s' @ evs s' s'')"
    using assms by (simp add: ext_def)
  from extI[OF this] show "ext s s''" "evs s s'' = evs s s' @ evs s' s''" by simp_all
qed

lemma R_refl: "R s s"
  by (simp add: R_def R0_def R1_def R2_def R3_def R4_def)

lemma R_trans:
  assumes "R s s'" "R s' s''"
  shows "R s s''"
proof -
  have a: "R0 s s'" "R1 s s'" "R2 s s'" "R3 s s'" "R4 s s'"
    and b: "R0 s' s''" "R1 s' s''" "R2 s' s''" "R3 s' s''" "R4 s' s''"
    using assms by (simp_all add: R_def)
  have e: "ext s s''" "evs s s'' = evs s s' @ evs s' s''"
    using ext_trans[of s s' s''] a(1) b(1) by (simp_all add: R0_def)
  have 0: "R0 s s''"
    using a(1) b(1) e(1) by (simp add: R0_def)
  have 1: "R1 s s''"
    using a(2) b(2) by (auto simp: R1_def e(2))
  have 2: "R2 s s''"
    using a(3) b(3) a(1) unfolding R2_def R0_def e(2) queue_cases
    by (simp; meson le_less_trans)
  have 3: "R3 s s''"
    using a(4) b(4) a(1) unfolding R3_def R0_def e(2)
    by (simp; meson le_trans)
  have 4: "R4 s s''"
  proof -
    have x: "mode s = Some Reading \<longrightarrow> pending s'' = pending s \<and>
        (\<forall>h. (h, FrameCb) \<in> set (rafs s'') \<longrightarrow> (h, FrameCb) \<in> set (rafs s))"
      using a(5) b(5) a(1) unfolding R4_def R0_def by auto
    have y: "\<forall>q i. Submitted q i \<in> set (evs s s'') \<longrightarrow> mode s \<noteq> Some Reading \<longrightarrow>
        \<not> (mode s = Some Writing \<and> q = QWrite) \<longrightarrow> pending s''"
      using a(5) b(5) a(1) b(1) unfolding R4_def R0_def e(2) by (simp; blast)
    have z: "\<not> pending s \<longrightarrow> pending s'' \<longrightarrow>
        (\<exists>h. next_handle s \<le> h \<and> (h, FrameCb) \<in> set (rafs s''))"
    proof (intro impI)
      assume p: "\<not> pending s" "pending s''"
      show "\<exists>h. next_handle s \<le> h \<and> (h, FrameCb) \<in> set (rafs s'')"
      proof (cases "pending s'")
        case True
        then obtain h where "next_handle s \<le> h" "(h, FrameCb) \<in> set (rafs s')"
          using a(5) p(1) unfolding R4_def by blast
        then show ?thesis using b(4) unfolding R3_def by blast
      next
        case False
        then obtain h where "next_handle s' \<le> h" "(h, FrameCb) \<in> set (rafs s'')"
          using b(5) p(2) unfolding R4_def by blast
        then show ?thesis using a(1) unfolding R0_def by (meson le_trans)
      qed
    qed
    show ?thesis unfolding R4_def using x y z by blast
  qed
  show ?thesis using 0 1 2 3 4 by (simp add: R_def)
qed

lemma log_fields [simp]:
  "lastId (log e s) = lastId s"
  "jobs (log e s) = jobs s"
  "mode (log e s) = mode s"
  "queue_read (log e s) = queue_read s"
  "queue_write (log e s) = queue_write s"
  "onError (log e s) = onError s"
  "trace (log e s) = trace s @ [e]"
  "pending (log e s) = pending s"
  "next_handle (log e s) = next_handle s"
  "rafs (log e s) = rafs s"
  "queue q (log e s) = queue q s"
  by (cases q; simp add: log_def)+

lemma ext_log [simp]: "ext s (log e s)" "evs s (log e s) = [e]"
  using extI[of "log e s" s "[e]"] by simp_all

lemma wf_q_log [simp]: "wf_q (log e s) = wf_q s"
  by (simp add: wf_q_def)

lemma wf_h_log [simp]: "wf_h (log e s) = wf_h s"
  by (simp add: wf_h_def wf_h1_def wf_h2_def wf_h3_def wf_h4_def)

lemma wf_t_log: "\<forall>t i r. e \<noteq> Invoke t i r \<Longrightarrow> wf_t (log e s) = wf_t s"
  by (cases e) (simp_all add: wf_t_def)

lemma wf_log: "\<forall>t i r. e \<noteq> Invoke t i r \<Longrightarrow> wf (log e s) = wf s"
  by (simp add: wf_def wf_t_log)

lemma R_log: "(\<forall>q i r. e \<noteq> Invoke (Queued q) i r) \<Longrightarrow> (\<forall>x. e \<noteq> Handled x \<and> e \<noteq> Uncaught x) \<Longrightarrow>
   (\<forall>q i. e \<noteq> Submitted q i) \<Longrightarrow> R s (log e s)"
  by (auto simp add: R_def R0_def R1_def R2_def R3_def R4_def)

lemma read_enq: "read f c s = (Suc (lastId s), request QRead (enq QRead f c s))"
  by (simp add: read_eq enq_def)

lemma write_enq: "write f c s = (Suc (lastId s), request QWrite (enq QWrite f c s))"
  by (simp add: write_eq enq_def)

lemma enq_fields [simp]:
  "lastId (enq q f c s) = Suc (lastId s)"
  "jobs (enq q f c s) = (jobs s)(Suc (lastId s) \<mapsto>
            \<lparr>job_id = Suc (lastId s), fn = f, ctx = c, jtype = Queued q, timer = None\<rparr>)"
  "mode (enq q f c s) = mode s"
  "onError (enq q f c s) = onError s"
  "trace (enq q f c s) = trace s"
  "pending (enq q f c s) = pending s"
  "next_handle (enq q f c s) = next_handle s"
  "rafs (enq q f c s) = rafs s"
  "queue q' (enq q f c s) = (if q' = q then queue q s @ [Suc (lastId s)] else queue q' s)"
  by (cases q; cases q'; simp add: enq_def)+

lemma enq_queues:
  "queue_read (enq q f c s) = (if q = QRead then queue_read s @ [Suc (lastId s)] else queue_read s)"
  "queue_write (enq q f c s) = (if q = QWrite then queue_write s @ [Suc (lastId s)] else queue_write s)"
  by (cases q; simp add: enq_def)+

lemma wf_q_enq: "wf_q s \<Longrightarrow> wf_q (enq q f c s)"
  unfolding wf_q_def queue_cases
  by (cases q) (auto simp: enq_queues)

lemma wf_h_enq: "wf_q s \<Longrightarrow> wf_h s \<Longrightarrow> wf_h (enq q f c s)"
  unfolding wf_h_def
proof (intro conjI)
  assume q: "wf_q s" and h: "wf_h1 s \<and> wf_h2 s \<and> wf_h3 s \<and> wf_h4 s"
  show "wf_h1 (enq q f c s)" using h by (simp add: wf_h1_def)
  show "wf_h2 (enq q f c s)" using h q unfolding wf_h2_def wf_q_def
    by (simp, meson le_refl not_less_eq_eq)
  show "wf_h3 (enq q f c s)" using h unfolding wf_h3_def
    by simp
  show "wf_h4 (enq q f c s)" using h by (simp add: wf_h4_def)
qed

lemma wf_t_enq: "wf_q s \<Longrightarrow> wf_t s \<Longrightarrow> wf_t (enq q f c s)"
  unfolding wf_t_def wf_q_def
  by (cases q) (auto simp: enq_queues)

lemma wf_enq: "wf s \<Longrightarrow> wf (enq q f c s)"
  by (simp add: wf_def wf_q_enq wf_h_enq wf_t_enq)

lemma queue_request [simp]: "queue q (request t s) = queue q s"
  by (cases q) simp_all

lemma wf_q_request [simp]: "wf_q (request t s) = wf_q s"
  by (simp add: wf_q_def)

lemma wf_h_request: "wf_h s \<Longrightarrow> wf_h (request t s)"
  unfolding wf_h_def
proof (intro conjI)
  assume h: "wf_h1 s \<and> wf_h2 s \<and> wf_h3 s \<and> wf_h4 s"
  show "wf_h1 (request t s)" using h by (auto simp: wf_h1_def request_host)
  show "wf_h2 (request t s)" using h by (auto simp: wf_h2_def request_host)
  show "wf_h3 (request t s)" using h unfolding wf_h3_def wf_h1_def 
    by (simp add: request_host) force
  show "wf_h4 (request t s)" using h by (auto simp: wf_h4_def request_host)
qed

lemma wf_t_request: "wf_t s \<Longrightarrow> wf_t (request t s)"
  unfolding wf_t_def
  by (auto simp: request_host)

lemma wf_request: "wf s \<Longrightarrow> wf (request t s)"
  by (simp add: wf_def wf_h_request wf_t_request)

lemma wf_read: "wf s \<Longrightarrow> wf (snd (read f c s))"
  by (simp add: read_enq wf_request wf_enq)

lemma wf_write: "wf s \<Longrightarrow> wf (snd (write f c s))"
  by (simp add: write_enq wf_request wf_enq)

lemma R_submit: "wf s \<Longrightarrow> R s (log (Submitted q (Suc (lastId s))) (request q (enq q f c s)))"
proof -
  let ?s' = "log (Submitted q (Suc (lastId s))) (request q (enq q f c s))"
  have e: "ext s ?s'" "evs s ?s' = [Submitted q (Suc (lastId s))]"
    using extI[of ?s' s "[Submitted q (Suc (lastId s))]"] by simp_all
  have 0: "R0 s ?s'" using e by (simp add: R0_def request_host)
  have 1: "R1 s ?s'" by (simp add: R1_def e)
  have 2: "R2 s ?s'" by (auto simp: R2_def e)
  have 3: "R3 s ?s'" by (auto simp: R3_def e request_host)
  have 4: "R4 s ?s'" by (auto simp: R4_def e request_host requests_def)
  show ?thesis using 0 1 2 3 4 by (simp add: R_def)
qed

lemma wf_submit: "wf s \<Longrightarrow> wf (log (Submitted q (Suc (lastId s))) (request q (enq q f c s)))"
  by (simp add: wf_log wf_request wf_enq)

text \<open>Cancelling.\<close>

lemma caf_rafs: "rafs (caf h s) = (case h of None \<Rightarrow> rafs s | Some k \<Rightarrow> filter (\<lambda>p. fst p \<noteq> k) (rafs s))"
  by (simp add: caf_def split: option.splits)

lemma queue_caf [simp]: "queue q (caf h s) = queue q s"
  by (cases q) simp_all

lemma wf_h_caf: "wf_h s \<Longrightarrow> \<forall>k. h = Some k \<longrightarrow> (k, FrameCb) \<notin> set (rafs s) \<Longrightarrow> wf_h (caf h s)"
  unfolding wf_h_def
proof (intro conjI)
  assume h: "wf_h1 s \<and> wf_h2 s \<and> wf_h3 s \<and> wf_h4 s"
    and "\<forall>k. h = Some k \<longrightarrow> (k, FrameCb) \<notin> set (rafs s)"
  show "wf_h1 (caf h s)" using h by (auto simp: wf_h1_def caf_rafs distinct_map_filter split: option.splits)
  show "wf_h2 (caf h s)" using h unfolding wf_h2_def by (cases h) (simp_all add: caf_rafs, blast)
  show "wf_h3 (caf h s)" using h by (auto simp: wf_h3_def caf_rafs split: option.splits)
  show "wf_h4 (caf h s)" using h \<open>\<forall>k. h = Some k \<longrightarrow> (k, FrameCb) \<notin> set (rafs s)\<close>
    unfolding wf_h4_def by (cases h) (simp_all add: caf_rafs, metis)
qed

lemma wf_h_clear: "wf_h s \<Longrightarrow> wf_h (clear i s)"
proof (rule clear_cases[of s i])
  fix j assume a: "wf_h s" "jobs s i = Some j" "jtype j = Deferred" "clear i s = caf (timer j) s"
  have "\<forall>k. timer j = Some k \<longrightarrow> (k, FrameCb) \<notin> set (rafs s)"
    using a(1,2) unfolding wf_h_def wf_h3_def by blast
  then show "wf_h (clear i s)" using a by (simp add: wf_h_caf)
next
  fix j assume a: "wf_h s" "jobs s i = Some j" "jtype j = Queued QRead"
    "clear i s = s\<lparr>queue_read := remove1 i (queue_read s), jobs := (jobs s)(i := None)\<rparr>"
  show "wf_h (clear i s)"
    using a(1,2,3) unfolding a(4) wf_h_def wf_h1_def wf_h2_def wf_h3_def wf_h4_def
    by (simp; fastforce)
next
  fix j assume a: "wf_h s" "jobs s i = Some j" "jtype j = Queued QWrite"
    "clear i s = s\<lparr>queue_write := remove1 i (queue_write s), jobs := (jobs s)(i := None)\<rparr>"
  show "wf_h (clear i s)"
    using a(1,2,3) unfolding a(4) wf_h_def wf_h1_def wf_h2_def wf_h3_def wf_h4_def
    by (simp; fastforce)
qed simp

lemma wf_t_clear: "wf_t s \<Longrightarrow> wf_t (clear i s)"
  by (rule clear_cases[of s i]) (auto simp: wf_t_def caf_rafs split: option.splits)

lemma wf_clear: "wf s \<Longrightarrow> wf (clear i s)"
  by (simp add: wf_def wf_q_clear wf_h_clear wf_t_clear)

lemma clear_log: "clear i (log e s) = log e (clear i s)"
  by (rule clear_cases[of s i]) (auto simp: clear_def log_def caf_def split: option.splits)

lemma queue_clear1: "x \<in> set (queue q (clear i s)) \<Longrightarrow> x \<in> set (queue q s)"
  by (rule clear_cases[of s i]; cases q; auto dest: set_remove1_subset[THEN subsetD])

lemma queue_clear2: "x \<in> set (queue q s) \<Longrightarrow> x \<noteq> i \<Longrightarrow> x \<in> set (queue q (clear i s))"
  by (rule clear_cases[of s i]; cases q; auto)

lemma clear_fields [simp]:
  "lastId (clear i s) = lastId s \<and>
  mode (clear i s) = mode s \<and>
  onError (clear i s) = onError s \<and>
  trace (clear i s) = trace s \<and>
  pending (clear i s) = pending s \<and>
  next_handle (clear i s) = next_handle s"
  by (rule clear_cases[of s i]; simp)

lemma rafs_clear_subset: "set (rafs (clear i s)) \<subseteq> set (rafs s)"
  by (rule clear_cases[of s i]) (auto simp: caf_rafs split: option.splits)

lemma rafs_clear_keep:
  assumes "wf s" "(h, cb) \<in> set (rafs s)" "\<forall>n f c. cb \<noteq> Wrapped i n f c"
  shows "(h, cb) \<in> set (rafs (clear i s))"
proof (rule clear_cases[of s i])
  fix j assume a: "jobs s i = Some j" "jtype j = Deferred" "clear i s = caf (timer j) s"
  have "timer j \<noteq> Some h"
    using assms a(1) unfolding wf_def wf_h_def wf_h3_def by blast
  then show ?thesis using assms(2) by (auto simp: a(3) caf_rafs split: option.splits)
qed (use assms in auto)

lemma R_clear: "wf s \<Longrightarrow> R s (clear i (log (Cleared i) s))"
proof -
  assume w: "wf s"
  let ?s' = "log (Cleared i) (clear i s)"
  have e: "ext s ?s'" "evs s ?s' = [Cleared i]"
    using extI[of ?s' s "[Cleared i]"] by simp_all
  have 0: "R0 s ?s'" using e by (simp add: R0_def)
  have 1: "R1 s ?s'" by (simp add: R1_def e)
  have 2: "R2 s ?s'" using queue_clear1[of _ _ i s] queue_clear2[of _ _ s i] by (auto simp: R2_def e)
  have 3: "R3 s ?s'" using rafs_clear_subset[of i s] rafs_clear_keep[OF w, of _ _ i]
    by (auto simp: R3_def e)
  have 4: "R4 s ?s'" using rafs_clear_subset[of i s] by (auto simp: R4_def e)
  show ?thesis using 0 1 2 3 4 by (simp add: R_def clear_log)
qed

lemma add_Deferred: "add Deferred f None s =
   (\<lparr>job_id = Suc (lastId s), fn = f, ctx = None, jtype = Deferred, timer = None\<rparr>, addd f s)"
  by (simp add: add_def uniqueId_def addd_def Let_def)

lemma queue_addd [simp]: "queue q (addd f s) = queue q s"
  by (cases q) (simp_all add: addd_def)

lemma wf_addd: "wf s \<Longrightarrow> wf (addd f s)"
  unfolding wf_def
proof (intro conjI)
  assume w: "wf_q s \<and> wf_h s \<and> wf_t s"
  show "wf_q (addd f s)" using w unfolding wf_q_def queue_cases by (auto simp: addd_def)
  show "wf_h (addd f s)" using w unfolding wf_h_def wf_h1_def wf_h2_def wf_h3_def wf_h4_def wf_q_def
    by (simp add: addd_def) (meson le_refl not_less_eq_eq)
  show "wf_t (addd f s)" using w unfolding wf_t_def by (auto simp: addd_def)
qed

lemma wpre_addd: "wf s \<Longrightarrow> wpre (Suc (lastId s)) (addd f s)"
  unfolding wpre_def wf_def wf_h_def wf_h2_def wf_q_def wf_t_def
  by (simp add: addd_def) (meson le_refl not_less_eq_eq)

lemma R_addd: "R s (addd f s)"
proof -
  have e: "ext s (addd f s)" "evs s (addd f s) = []"
    using extI[of "addd f s" s "[]"] by (simp_all add: addd_def)
  show ?thesis unfolding R_def R0_def R1_def R2_def R3_def R4_def e
    by (simp add: e) (simp add: addd_def)
qed

lemma wf_invoke: "wf s \<Longrightarrow> wpre i s \<Longrightarrow> wf (log (Invoke Deferred i r) s)"
  unfolding wf_def wpre_def
  apply (simp add: wf_t_def wf_q_def queue_cases)
  apply fastforce
  done

lemma raf_eq: "raf cb s = (next_handle s, s\<lparr>rafs := rafs s @ [(next_handle s, cb)], next_handle := Suc (next_handle s)\<rparr>)"
  by (simp add: raf_def)

lemma rereg_eq: "jobs s i = Some j \<Longrightarrow> rereg i n f c s =
   s\<lparr>rafs := rafs s @ [(next_handle s, Wrapped i n f c)], next_handle := Suc (next_handle s),
     jobs := (jobs s)(i \<mapsto> j\<lparr>timer := Some (next_handle s)\<rparr>)\<rparr>"
  by (simp add: rereg_def raf_eq set_timer_def)

lemma wf_rereg: 
  assumes "wf s" "wpre i s" "0 \<le> n"
  shows "wf (rereg i n f c s)"
proof -
  obtain j where j: "jobs s i = Some j" "jtype j = Deferred" using assms(2) by (auto simp: wpre_def)
  note eq = rereg_eq[OF j(1)]
  have w: "wf_q s" "wf_h1 s" "wf_h2 s" "wf_h3 s" "wf_h4 s" "wf_t s" using assms(1) by (simp_all add: wf_def wf_h_def)
  have 1: "wf_q (rereg i n f c s)" using w(1) j unfolding eq wf_q_def queue_cases by auto
  have 2: "wf_h1 (rereg i n f c s)" using w(2) unfolding eq wf_h1_def by auto
  have 3: "wf_h2 (rereg i n f c s)" using w(3) assms(2,3) unfolding eq wf_h2_def wpre_def by (simp; blast)
  have 4: "wf_h3 (rereg i n f c s)" using w(4) w(2) j unfolding eq wf_h3_def wf_h1_def by (simp; fastforce)
  have 5: "wf_h4 (rereg i n f c s)" using w(5) unfolding eq wf_h4_def by auto
  have 6: "wf_t (rereg i n f c s)" using w(6) assms(2) unfolding eq wf_t_def wpre_def by auto
  show ?thesis using 1 2 3 4 5 6 by (simp add: wf_def wf_h_def)
qed

lemma R_rereg:
  assumes "wpre i s"
  shows "R s (rereg i n f c s)"
proof -
  obtain j where j: "jobs s i = Some j" "jtype j = Deferred" using assms by (auto simp: wpre_def)
  note eq = rereg_eq[OF j(1)]
  have e: "ext s (rereg i n f c s)" "evs s (rereg i n f c s) = []"
    using extI[of "rereg i n f c s" s "[]"] by (simp_all add: eq)
  have q: "queue q (rereg i n f c s) = queue q s" for q by (cases q) (simp_all add: eq)
  show ?thesis unfolding R_def R0_def R1_def R2_def R3_def R4_def e q
    by (simp add: e) (auto simp add: eq)
qed

text \<open>A callback's script keeps the invariant.\<close>

lemma wrapped_eq:
  "wrapped i n f c s =
     (if n = 0 then
        (case exec f (log (Invoke Deferred i (case c of None \<Rightarrow> Undefined | Some x \<Rightarrow> Ctx x)) s) of
           (None, s') \<Rightarrow> (None, s')
         | (Some e, s') \<Rightarrow> (Some TypeError, s'))
      else (None, rereg i (n - 1) f c s))"
  by (simp add: rereg_def raf_eq)

lemma defer_eq:
  "defer n f c s =
     (if n < 0 then (Inr None, s)
      else (case wrapped (Suc (lastId s)) n f c (addd f s) of
              (Some e, s2) \<Rightarrow> (Inl e, s2)
            | (None, s2) \<Rightarrow> (Inr (Some (Suc (lastId s))), s2)))"
  by (simp add: add_Deferred del: wrapped.simps split: prod.splits option.splits)

lemma exec_ok:
  "wf s \<Longrightarrow> wf (snd (exec f s)) \<and> R s (snd (exec f s))"
  "wf s \<Longrightarrow> wpre i s \<Longrightarrow> 0 \<le> n \<Longrightarrow> wf (snd (wrapped i n f c s)) \<and> R s (snd (wrapped i n f c s))"
  "wf s \<Longrightarrow> wf (snd (defer n f c s)) \<and> R s (snd (defer n f c s))"
proof (induction f s and i n f c s and n f c s rule: exec_wrapped_defer.induct)
  case (1 s)
  then show ?case by (simp add: R_refl)
next
  case (2 f c as s)
  let ?s1 = "log (Submitted QRead (Suc (lastId s))) (request QRead (enq QRead f c s))"
  have "wf ?s1" "R s ?s1" using 2(2) wf_submit R_submit by blast+
  moreover have "wf (snd (exec as ?s1)) \<and> R ?s1 (snd (exec as ?s1))"
    using 2(1)[OF read_enq[symmetric]] \<open>wf ?s1\<close> by simp
  ultimately show ?case by (auto simp: read_enq intro: R_trans)
next
  case (3 f c as s)
  let ?s1 = "log (Submitted QWrite (Suc (lastId s))) (request QWrite (enq QWrite f c s))"
  have "wf ?s1" "R s ?s1" using 3(2) wf_submit R_submit by blast+
  moreover have "wf (snd (exec as ?s1)) \<and> R ?s1 (snd (exec as ?s1))"
    using 3(1)[OF write_enq[symmetric]] \<open>wf ?s1\<close> by simp
  ultimately show ?case by (auto simp: write_enq intro: R_trans)
next
  case (4 i as s)
  let ?s1 = "clear i (log (Cleared i) s)"
  have "wf ?s1" "R s ?s1" using 4(2) by (simp_all add: wf_clear wf_log R_clear)
  then show ?case using 4(1) by (auto intro: R_trans)
next
  case (5 n f c as s)
  let ?s1 = "snd (defer n f c s)"
  have a: "wf ?s1" "R s ?s1" using 5 by simp_all
  show ?case
  proof (cases "defer n f c s")
    case (Pair r s1)
    then show ?thesis
    proof (cases r)
      case (Inl e)
      then show ?thesis using a Pair by simp
    next
      case (Inr v)
      then have "wf (snd (exec as s1)) \<and> R s1 (snd (exec as s1))"
        using 5(2)[OF Pair[symmetric] Inr] a Pair by simp
      then show ?thesis using a Pair Inr by (auto intro: R_trans)
    qed
  qed
next
  case (6 e as s)
  then show ?case by (simp add: R_refl)
next
  case (7 i frames f c s)
  show ?case
  proof (cases "frames = 0")
    case True
    let ?s1 = "log (Invoke Deferred i (case c of None \<Rightarrow> Undefined | Some x \<Rightarrow> Ctx x)) s"
    have "wf ?s1" using 7(2,3) by (rule wf_invoke)
    moreover have "R s ?s1" by (rule R_log) simp_all
    moreover have "wf (snd (exec f ?s1)) \<and> R ?s1 (snd (exec f ?s1))"
      using 7(1)[OF True] \<open>wf ?s1\<close> by simp
    ultimately have "wf (snd (exec f ?s1)) \<and> R s (snd (exec f ?s1))" by (auto intro: R_trans)
    then show ?thesis unfolding wrapped_eq using True by (auto split: prod.splits option.splits)
  next
    case False
    then have "0 \<le> frames - 1" using 7(4) by simp
    then show ?thesis unfolding wrapped_eq using False 7(2,3) by (simp add: wf_rereg R_rereg)
  qed
next
  case (8 frames f c s)
  show ?case
  proof (cases "frames < 0")
    case True
    then show ?thesis using 8(2) by (simp add: R_refl)
  next
    case False
    let ?s1 = "addd f s"
    let ?i = "Suc (lastId s)"
    have a: "wf ?s1" "R s ?s1" "wpre ?i ?s1" using 8(2) by (simp_all add: wf_addd R_addd wpre_addd)
    have "wf (snd (wrapped ?i frames f c ?s1)) \<and> R ?s1 (snd (wrapped ?i frames f c ?s1))"
      using 8(1)[OF False add_Deferred[symmetric]] a False by simp
    then have "wf (snd (wrapped ?i frames f c ?s1)) \<and> R s (snd (wrapped ?i frames f c ?s1))"
      using a by (auto intro: R_trans)
    then show ?thesis unfolding defer_eq using False by (auto split: prod.splits option.splits)
  qed
qed

lemma R5_refl: "R5 X s s"
  by (simp add: R5_def)

lemma R5_trans: "ext s s' \<Longrightarrow> ext s' s'' \<Longrightarrow> R5 X s s' \<Longrightarrow> R5 X s' s'' \<Longrightarrow> R5 X s s''"
  unfolding R5_def using ext_trans(2)[of s s' s''] by auto

lemma R5_mono: "R5 X s s' \<Longrightarrow> X \<subseteq> Y \<Longrightarrow> R5 Y s s'"
  unfolding R5_def by blast

lemma R_ext: "R s s' \<Longrightarrow> ext s s'"
  by (simp add: R_def R0_def)

lemma R5_log: "\<forall>t i r. e = Invoke t i r \<longrightarrow> i \<in> X \<Longrightarrow> R5 X s (log e s)"
  unfolding R5_def by (cases e) (auto simp: dead_def)

lemma R5_submit: "R5 X s (log (Submitted q (Suc (lastId s))) (request q (enq q f c s)))"
proof -
  let ?s' = "log (Submitted q (Suc (lastId s))) (request q (enq q f c s))"
  have e: "evs s ?s' = [Submitted q (Suc (lastId s))]"
    using extI[of ?s' s "[Submitted q (Suc (lastId s))]"] by simp_all
  show ?thesis unfolding R5_def e by (cases q) (auto simp: dead_def request_host enq_queues)
qed

lemma R5_clear: "R5 X s (clear i (log (Cleared i) s))"
proof -
  let ?s' = "log (Cleared i) (clear i s)"
  have e: "evs s ?s' = [Cleared i]"
    using extI[of ?s' s "[Cleared i]"] by simp_all
  have "dead k s \<Longrightarrow> dead k ?s'" for k
    using queue_clear1[of k QRead i s] queue_clear1[of k QWrite i s] rafs_clear_subset[of i s]
    by (auto simp: dead_def)
  then show ?thesis unfolding R5_def e clear_log by simp
qed

lemma R5_addd: "R5 X s (addd f s)"
proof -
  have e: "evs s (addd f s) = []"
    using extI[of "addd f s" s "[]"] by (simp_all add: addd_def)
  show ?thesis unfolding R5_def e by (auto simp: dead_def addd_def)
qed

lemma R5_rereg: "wpre i s \<Longrightarrow> R5 {i} s (rereg i n f c s)"
proof -
  assume "wpre i s"
  then obtain j where j: "jobs s i = Some j" by (auto simp: wpre_def)
  note eq = rereg_eq[OF j(1)]
  have e: "evs s (rereg i n f c s) = []"
    using extI[of "rereg i n f c s" s "[]"] by (simp_all add: eq)
  show ?thesis unfolding R5_def e by (auto simp: dead_def eq)
qed

lemma exec_dead:
  "wf s \<Longrightarrow> R5 {} s (snd (exec f s))"
  "wf s \<Longrightarrow> wpre i s \<Longrightarrow> 0 \<le> n \<Longrightarrow> R5 {i} s (snd (wrapped i n f c s))"
  "wf s \<Longrightarrow> R5 {} s (snd (defer n f c s))"
proof (induction f s and i n f c s and n f c s rule: exec_wrapped_defer.induct)
  case (1 s)
  then show ?case by (simp add: R5_refl)
next
  case (2 f c as s)
  let ?s1 = "log (Submitted QRead (Suc (lastId s))) (request QRead (enq QRead f c s))"
  have a: "wf ?s1" "R s ?s1" "R5 {} s ?s1" using 2(2) wf_submit R_submit R5_submit by blast+
  moreover have "R5 {} ?s1 (snd (exec as ?s1))"
    using 2(1)[OF read_enq[symmetric]] \<open>wf ?s1\<close> by simp
  ultimately show ?case using exec_ok(1)[OF a(1), of as]
    by (auto simp: read_enq intro: R5_trans R_ext)
next
  case (3 f c as s)
  let ?s1 = "log (Submitted QWrite (Suc (lastId s))) (request QWrite (enq QWrite f c s))"
  have a: "wf ?s1" "R s ?s1" "R5 {} s ?s1" using 3(2) wf_submit R_submit R5_submit by blast+
  moreover have "R5 {} ?s1 (snd (exec as ?s1))"
    using 3(1)[OF write_enq[symmetric]] \<open>wf ?s1\<close> by simp
  ultimately show ?case using exec_ok(1)[OF a(1), of as]
    by (auto simp: write_enq intro: R5_trans R_ext)
next
  case (4 i as s)
  let ?s1 = "clear i (log (Cleared i) s)"
  have a: "wf ?s1" "R s ?s1" "R5 {} s ?s1" using 4(2) by (simp_all add: wf_clear wf_log R_clear R5_clear)
  then show ?case using 4(1) exec_ok(1)[OF a(1), of as] by (auto intro: R5_trans R_ext)
next
  case (5 n f c as s)
  let ?s1 = "snd (defer n f c s)"
  have a: "wf ?s1" "R s ?s1" "R5 {} s ?s1" using 5 exec_ok(3) by simp_all
  show ?case
  proof (cases "defer n f c s")
    case (Pair r s1)
    then show ?thesis
    proof (cases r)
      case (Inl e)
      then show ?thesis using a Pair by simp
    next
      case (Inr v)
      then have "R5 {} s1 (snd (exec as s1))"
        using 5(2)[OF Pair[symmetric] Inr] a Pair by simp
      then show ?thesis using a Pair Inr exec_ok(1)[of s1 as] by (auto intro: R5_trans R_ext)
    qed
  qed
next
  case (6 e as s)
  then show ?case by (simp add: R5_refl)
next
  case (7 i frames f c s)
  show ?case
  proof (cases "frames = 0")
    case True
    let ?s1 = "log (Invoke Deferred i (case c of None \<Rightarrow> Undefined | Some x \<Rightarrow> Ctx x)) s"
    have w: "wf ?s1" using 7(2,3) by (rule wf_invoke)
    moreover have "R5 {i} s ?s1" by (rule R5_log) simp_all
    moreover have "R5 {} ?s1 (snd (exec f ?s1))"
      using 7(1)[OF True] \<open>wf ?s1\<close> by simp
    ultimately have "R5 {i} s (snd (exec f ?s1))"
      using exec_ok(1)[OF w, of f] by (auto intro: R5_trans[of s ?s1] R_ext R5_mono)
    then show ?thesis unfolding wrapped_eq using True by (auto split: prod.splits option.splits)
  next
    case False
    then show ?thesis unfolding wrapped_eq using False 7(2,3) by (simp add: R5_rereg)
  qed
next
  case (8 frames f c s)
  show ?case
  proof (cases "frames < 0")
    case True
    then show ?thesis using 8(2) by (simp add: R5_refl)
  next
    case False
    let ?s1 = "addd f s"
    let ?i = "Suc (lastId s)"
    let ?s2 = "snd (wrapped ?i frames f c ?s1)"
    have a: "wf ?s1" "R s ?s1" "wpre ?i ?s1" "R5 {} s ?s1"
      using 8(2) by (simp_all add: wf_addd R_addd wpre_addd R5_addd)
    have b: "R5 {?i} ?s1 ?s2"
      using 8(1)[OF False add_Deferred[symmetric]] a False by simp
    have c: "R ?s1 ?s2" using exec_ok(2)[OF a(1) a(3), of frames f c] False by simp
    have "R5 {?i} s ?s2"
      using R5_trans[OF R_ext[OF a(2)] R_ext[OF c] R5_mono[OF a(4)] b] by simp
    then have "R5 {} s ?s2" unfolding R5_def dead_def by auto
    then show ?thesis unfolding defer_eq using False by (auto split: prod.splits option.splits)
  qed
qed

lemma sum_weight_cong:
  "(\<forall>i \<in> set xs. weight s' i = weight s i) \<Longrightarrow>
   sum_list (map (weight s') xs) = sum_list (map (weight s) xs)"
  by (induction xs) auto

lemma sum_weight_le:
  "(\<forall>i \<in> set xs. weight s' i \<le> weight s i) \<Longrightarrow>
   sum_list (map (weight s') xs) \<le> sum_list (map (weight s) xs)"
  by (induction xs) (auto simp: add_mono)

lemma W_cong:
  "queue_read s' = queue_read s \<Longrightarrow> queue_write s' = queue_write s \<Longrightarrow>
   (\<forall>i \<in> set (queue_read s @ queue_write s). weight s' i = weight s i) \<Longrightarrow> W s' = W s"
  unfolding W_def using sum_weight_cong[of "queue_read s @ queue_write s" s' s] by simp

lemma W_log [simp]: "W (log e s) = W s"
  by (rule W_cong) (simp_all add: weight_def)

lemma W_request [simp]: "W (request t s) = W s"
  by (rule W_cong) (simp_all add: weight_def)

lemma W_enq: "wf s \<Longrightarrow> W (enq q f c s) = W s + Suc (subs f)"
proof -
  assume "wf s"
  then have n: "Suc (lastId s) \<notin> set (queue_read s @ queue_write s)"
    unfolding wf_def wf_q_def queue_cases using Suc_n_not_le_n by auto
  have "\<forall>i \<in> set (queue_read s @ queue_write s). weight (enq q f c s) i = weight s i"
    using n by (auto simp: weight_def)
  from sum_weight_cong[OF this]
  have "sum_list (map (weight (enq q f c s)) (queue_read s @ queue_write s)) = W s"
    by (simp add: W_def)
  moreover have "weight (enq q f c s) (Suc (lastId s)) = Suc (subs f)"
    by (simp add: weight_def)
  ultimately show ?thesis unfolding W_def by (cases q) (simp_all add: enq_queues)
qed

lemma sum_list_remove1_le: "sum_list (map f (remove1 x xs)) \<le> (sum_list (map f xs) :: nat)"
  by (induction xs) auto

lemma W_clear: "W (clear i s) \<le> W s"
proof (rule clear_cases[of s i])
  fix j assume a: "clear i s = s\<lparr>queue_read := remove1 i (queue_read s), jobs := (jobs s)(i := None)\<rparr>"
  have "\<forall>k \<in> set (remove1 i (queue_read s) @ queue_write s). weight (clear i s) k \<le> weight s k"
    by (auto simp: a weight_def)
  from sum_weight_le[OF this]
  have "W (clear i s) \<le> sum_list (map (weight s) (remove1 i (queue_read s) @ queue_write s))"
    unfolding W_def by (simp add: a)
  also have "\<dots> \<le> W s" unfolding W_def using sum_list_remove1_le[of "weight s" i "queue_read s"] by simp
  finally show ?thesis .
next
  fix j assume a: "clear i s = s\<lparr>queue_write := remove1 i (queue_write s), jobs := (jobs s)(i := None)\<rparr>"
  have "\<forall>k \<in> set (queue_read s @ remove1 i (queue_write s)). weight (clear i s) k \<le> weight s k"
    by (auto simp: a weight_def)
  from sum_weight_le[OF this]
  have "W (clear i s) \<le> sum_list (map (weight s) (queue_read s @ remove1 i (queue_write s)))"
    unfolding W_def by (simp add: a)
  also have "\<dots> \<le> W s" unfolding W_def using sum_list_remove1_le[of "weight s" i "queue_write s"] by simp
  finally show ?thesis .
next
  fix j assume a: "clear i s = caf (timer j) s"
  have "W (caf (timer j) s) = W s" by (rule W_cong) (simp_all add: weight_def)
  then show ?thesis unfolding a by simp
qed simp

lemma W_addd: "wf s \<Longrightarrow> W (addd f s) = W s"
proof -
  assume "wf s"
  then have n: "Suc (lastId s) \<notin> set (queue_read s @ queue_write s)"
    unfolding wf_def wf_q_def queue_cases using Suc_n_not_le_n by auto
  show ?thesis using n by (intro W_cong) (auto simp: addd_def weight_def)
qed

lemma W_rereg: "wpre i s \<Longrightarrow> W (rereg i n f c s) = W s"
proof -
  assume "wpre i s"
  then obtain j where j: "jobs s i = Some j" by (auto simp: wpre_def)
  show ?thesis using j by (intro W_cong) (auto simp: rereg_eq[OF j] weight_def)
qed

lemma exec_W:
  "wf s \<Longrightarrow> W (snd (exec f s)) \<le> W s + subs f"
  "wf s \<Longrightarrow> wpre i s \<Longrightarrow> 0 \<le> n \<Longrightarrow> W (snd (wrapped i n f c s)) \<le> W s + subs f"
  "wf s \<Longrightarrow> W (snd (defer n f c s)) \<le> W s + subs f"
proof (induction f s and i n f c s and n f c s rule: exec_wrapped_defer.induct)
  case (1 s)
  then show ?case by simp
next
  case (2 f c as s)
  let ?s1 = "log (Submitted QRead (Suc (lastId s))) (request QRead (enq QRead f c s))"
  have a: "wf ?s1" "W ?s1 = W s + Suc (subs f)" using 2(2) wf_submit W_enq by simp_all
  moreover have "W (snd (exec as ?s1)) \<le> W ?s1 + subs as"
    using 2(1)[OF read_enq[symmetric]] \<open>wf ?s1\<close> by simp
  ultimately show ?case by (simp add: read_enq)
next
  case (3 f c as s)
  let ?s1 = "log (Submitted QWrite (Suc (lastId s))) (request QWrite (enq QWrite f c s))"
  have a: "wf ?s1" "W ?s1 = W s + Suc (subs f)" using 3(2) wf_submit W_enq by simp_all
  moreover have "W (snd (exec as ?s1)) \<le> W ?s1 + subs as"
    using 3(1)[OF write_enq[symmetric]] \<open>wf ?s1\<close> by simp
  ultimately show ?case by (simp add: write_enq)
next
  case (4 i as s)
  let ?s1 = "clear i (log (Cleared i) s)"
  have a: "wf ?s1" "W ?s1 \<le> W s" using 4(2) W_clear[of i s] by (simp_all add: wf_clear wf_log clear_log)
  then show ?case using 4(1) by fastforce
next
  case (5 n f c as s)
  let ?s1 = "snd (defer n f c s)"
  have a: "wf ?s1" "W ?s1 \<le> W s + subs f" using 5 exec_ok(3) by simp_all
  show ?case
  proof (cases "defer n f c s")
    case (Pair r s1)
    then show ?thesis
    proof (cases r)
      case (Inl e)
      then show ?thesis using a Pair by simp
    next
      case (Inr v)
      then have "W (snd (exec as s1)) \<le> W s1 + subs as"
        using 5(2)[OF Pair[symmetric] Inr] a Pair by simp
      then show ?thesis using a Pair Inr by simp
    qed
  qed
next
  case (6 e as s)
  then show ?case by simp
next
  case (7 i frames f c s)
  show ?case
  proof (cases "frames = 0")
    case True
    let ?s1 = "log (Invoke Deferred i (case c of None \<Rightarrow> Undefined | Some x \<Rightarrow> Ctx x)) s"
    have w: "wf ?s1" using 7(2,3) by (rule wf_invoke)
    have "W (snd (exec f ?s1)) \<le> W ?s1 + subs f"
      using 7(1)[OF True] \<open>wf ?s1\<close> by simp
    then show ?thesis unfolding wrapped_eq using True by (auto split: prod.splits option.splits)
  next
    case False
    then show ?thesis unfolding wrapped_eq using False 7(2,3) by (simp add: W_rereg)
  qed
next
  case (8 frames f c s)
  show ?case
  proof (cases "frames < 0")
    case True
    then show ?thesis using 8(2) by simp
  next
    case False
    let ?s1 = "addd f s"
    let ?i = "Suc (lastId s)"
    let ?s2 = "snd (wrapped ?i frames f c ?s1)"
    have a: "wf ?s1" "wpre ?i ?s1" "W ?s1 = W s"
      using 8(2) by (simp_all add: wf_addd wpre_addd W_addd)
    have b: "W ?s2 \<le> W ?s1 + subs f"
      using 8(1)[OF False add_Deferred[symmetric]] a False by simp
    then show ?thesis unfolding defer_eq using False a(3) by (auto split: prod.splits option.splits)
  qed
qed

lemma R2w_trans:
  assumes "ext s s'" "ext s' s''" "R2w s s'" "R2w s' s''"
  shows "R2w s s''"
proof -
  note e = ext_trans(2)[OF assms(1,2)]
  have 1: "i \<in> set (queue q s'') \<Longrightarrow> i \<in> set (queue q s) \<or> Submitted q i \<in> set (evs s s'')" for q i
    using assms(3,4) unfolding R2w_def e by (simp, meson)
  have 2: "i \<in> set (queue q s) \<or> Submitted q i \<in> set (evs s s'') \<Longrightarrow>
        i \<in> set (queue q s'') \<or> Cleared i \<in> set (evs s s'') \<or>
        (\<exists>r. Invoke (Queued q) i r \<in> set (evs s s''))" for q i
    using assms(3,4) unfolding R2w_def e by (simp, meson)
  show ?thesis unfolding R2w_def using 1 2 by blast
qed

lemma R3_trans:
  assumes "ext s s'" "ext s' s''" "next_handle s \<le> next_handle s'" "R3 s s'" "R3 s' s''"
  shows "R3 s s''"
  using assms(3,4,5) unfolding R3_def ext_trans(2)[OF assms(1,2)]
  by (simp; meson le_trans)

lemma Tb_refl: "Tb P X s s"
  by (simp add: Tb_def R2w_def R3_def R5_refl)

lemma Tb_trans:
  assumes "Tb P X s s'" "Tb P X s' s''"
  shows "Tb P X s s''"
proof -
  have e: "ext s s'" "ext s' s''" using assms by (simp_all add: Tb_def)
  note ee = ext_trans[OF e]
  have "R2w s s''" using R2w_trans[OF e] assms by (simp add: Tb_def)
  moreover have "R3 s s''" using R3_trans[OF e] assms by (simp add: Tb_def)
  moreover have "R5 X s s''" using R5_trans[OF e] assms by (simp add: Tb_def)
  ultimately show ?thesis using assms ee unfolding Tb_def by auto
qed

lemma Tb_mono: "Tb P X s s' \<Longrightarrow> (\<And>e. P e \<Longrightarrow> Q e) \<Longrightarrow> X \<subseteq> Y \<Longrightarrow> Tb Q Y s s'"
  unfolding Tb_def using R5_mono by blast

lemma Tm_refl: "Tm s s"
  by (simp add: Tm_def R4_def)

lemma Tm_trans:
  assumes "Tm s s'" "Tm s' s''"
  shows "Tm s s''"
proof -
  have e: "ext s s'" "ext s' s''" using assms by (simp_all add: Tm_def)
  note ee = ext_trans[OF e]
  have a: "mode s' = mode s" "pending s \<longrightarrow> pending s'" "next_handle s \<le> next_handle s'"
    "\<forall>h. (h, FrameCb) \<in> set (rafs s) \<longrightarrow> (h, FrameCb) \<in> set (rafs s')" "R4 s s'"
    using assms(1) by (simp_all add: Tm_def)
  have b: "mode s'' = mode s'" "pending s' \<longrightarrow> pending s''" "next_handle s' \<le> next_handle s''"
    "\<forall>h. (h, FrameCb) \<in> set (rafs s') \<longrightarrow> (h, FrameCb) \<in> set (rafs s'')" "R4 s' s''"
    using assms(2) by (simp_all add: Tm_def)
  have x: "mode s = Some Reading \<longrightarrow> pending s'' = pending s \<and>
      (\<forall>h. (h, FrameCb) \<in> set (rafs s'') \<longrightarrow> (h, FrameCb) \<in> set (rafs s))"
    using a(1,5) b(5) unfolding R4_def by auto
  have y: "\<forall>q i. Submitted q i \<in> set (evs s s'') \<longrightarrow> mode s \<noteq> Some Reading \<longrightarrow>
      \<not> (mode s = Some Writing \<and> q = QWrite) \<longrightarrow> pending s''"
    using a(1,2,5) b(2,5) unfolding R4_def ee(2) by (simp; blast)
  have z: "\<not> pending s \<longrightarrow> pending s'' \<longrightarrow>
      (\<exists>h. next_handle s \<le> h \<and> (h, FrameCb) \<in> set (rafs s''))"
  proof (intro impI)
    assume p: "\<not> pending s" "pending s''"
    show "\<exists>h. next_handle s \<le> h \<and> (h, FrameCb) \<in> set (rafs s'')"
    proof (cases "pending s'")
      case True
      then obtain h where "next_handle s \<le> h" "(h, FrameCb) \<in> set (rafs s')"
        using a(5) p(1) unfolding R4_def by blast
      then show ?thesis using b(4) by blast
    next
      case False
      then obtain h where "next_handle s' \<le> h" "(h, FrameCb) \<in> set (rafs s'')"
        using b(5) p(2) unfolding R4_def by blast
      then show ?thesis using a(3) by (meson le_trans)
    qed
  qed
  have "R4 s s''" unfolding R4_def using x y z by blast
  then show ?thesis using a b ee(1) unfolding Tm_def by auto
qed

lemma R_Tb: "R s s' \<Longrightarrow> R5 X s s' \<Longrightarrow> Tb ev_exec X s s'"
  unfolding R_def R0_def R1_def R2_def Tb_def R2w_def ev_exec_def
  by (simp; blast)

lemma R_Tm: "R s s' \<Longrightarrow> Tm s s'"
  unfolding R_def R0_def R3_def Tm_def by simp

lemma exec_T: "wf s \<Longrightarrow> Tb ev_exec {} s (snd (exec f s)) \<and> Tm s (snd (exec f s))"
  using exec_ok(1)[of s f] exec_dead(1)[of s f] R_Tb R_Tm by blast

lemma ev_exec_run: "ev_exec e \<Longrightarrow> ev_run q e"
  by (auto simp: ev_exec_def ev_run_def)

lemma ev_run_frame: "ev_run q e \<Longrightarrow> ev_frame e"
  by (auto simp: ev_frame_def ev_run_def)

lemma Tb_log: "P e \<Longrightarrow> (\<forall>t i r. e \<noteq> Invoke t i r) \<Longrightarrow> (\<forall>q i. e \<noteq> Submitted q i) \<Longrightarrow> Tb P X s (log e s)"
  unfolding Tb_def R2w_def R3_def by (auto intro: R5_log)

lemma Tm_log: "(\<forall>q i. e \<noteq> Submitted q i) \<Longrightarrow> Tm s (log e s)"
  by (auto simp add: Tm_def R4_def)

lemma deq_fields [simp]:
  "lastId (deq q s) = lastId s"
  "jobs (deq q s) = (jobs s)(hd (queue q s) := None)"
  "mode (deq q s) = mode s"
  "onError (deq q s) = onError s"
  "trace (deq q s) = trace s"
  "pending (deq q s) = pending s"
  "next_handle (deq q s) = next_handle s"
  "rafs (deq q s) = rafs s"
  by (cases q; simp add: deq_def)+

lemma queue_deq [simp]:
  "queue q' (deq q s) = (if q' = q then tl (queue q s) else queue q' s)"
  by (cases q; cases q'; simp add: deq_def)

lemma deq_queues:
  "queue_read (deq q s) = (if q = QRead then tl (queue_read s) else queue_read s)"
  "queue_write (deq q s) = (if q = QWrite then tl (queue_write s) else queue_write s)"
  by (cases q; simp add: deq_def)+

lemma wf_head:
  assumes "wf s" "queue q s = i # rest"
  shows "0 < i" "\<exists>j. jobs s i = Some j \<and> jtype j = Queued q"
    "i \<notin> set rest" "i \<notin> set (invoked (trace s))"
    "\<forall>h n f c. (h, Wrapped i n f c) \<notin> set (rafs s)"
    "\<forall>q'. q' \<noteq> q \<longrightarrow> i \<notin> set (queue q' s)"
proof -
  have q: "wf_q s" and h: "wf_h2 s" "wf_h3 s" and t: "wf_t s" using assms(1) by (simp_all add: wf_def wf_h_def)
  have i: "i \<in> set (queue q s)" using assms(2) by simp
  show j: "\<exists>j. jobs s i = Some j \<and> jtype j = Queued q" using q i unfolding wf_q_def by blast
  then show "0 < i" using q unfolding wf_q_def by blast
  show "i \<notin> set rest" using q assms(2) unfolding wf_q_def by (cases q) auto
  show "\<forall>q'. q' \<noteq> q \<longrightarrow> i \<notin> set (queue q' s)"
  proof (intro allI impI)
    fix q' assume "q' \<noteq> q"
    then show "i \<notin> set (queue q' s)" using q i unfolding wf_q_def by (cases q; cases q') auto
  qed
  show "i \<notin> set (invoked (trace s))" using t i unfolding wf_t_def by (cases q) auto
  show "\<forall>h n f c. (h, Wrapped i n f c) \<notin> set (rafs s)"
    using h j unfolding wf_h2_def wf_h3_def by fastforce
qed

lemma wf_deq:
  assumes "wf s" "queue q s = i # rest"
  shows "wf (log (Invoke (Queued q) i r) (deq q s))"
proof -
  note hd = wf_head[OF assms]
  have w: "wf_q s" "wf_h1 s" "wf_h2 s" "wf_h3 s" "wf_h4 s" "wf_t s"
    using assms(1) by (simp_all add: wf_def wf_h_def)
  have 1: "wf_q (deq q s)"
    using w(1) hd(3) assms(2) unfolding wf_q_def queue_cases
    by (cases q) (auto simp: deq_queues)
  have 2: "wf_h1 (deq q s)" using w(2) by (simp add: wf_h1_def)
  have 3: "wf_h2 (deq q s)" using w(3) hd(5) unfolding wf_h2_def by (simp add: assms(2)) blast
  have 4: "wf_h3 (deq q s)" using w(4) unfolding wf_h3_def by (simp add: assms(2))
  have 5: "wf_h4 (deq q s)" using w(5) by (simp add: wf_h4_def)
  have 6: "wf_t (log (Invoke (Queued q) i r) (deq q s))"
    using w(6) w(1) hd(1,2,3,4,5,6) assms(2) unfolding wf_t_def wf_q_def
    by (cases q) (auto simp: deq_queues dest: list.set_sel(2))
  show ?thesis using 1 2 3 4 5 6 by (simp add: wf_def wf_h_def wf_h1_def wf_h2_def wf_h3_def wf_h4_def)
qed

lemma T_deq:
  assumes "wf s" "queue q s = i # rest"
  shows "Tb (ev_run q) {} s (log (Invoke (Queued q) i r) (deq q s))"
    "Tm s (log (Invoke (Queued q) i r) (deq q s))"
proof -
  let ?s' = "log (Invoke (Queued q) i r) (deq q s)"
  note hd = wf_head[OF assms]
  have e: "ext s ?s'" "evs s ?s' = [Invoke (Queued q) i r]"
    using extI[of ?s' s "[Invoke (Queued q) i r]"] by simp_all
  have 2: "R2w s ?s'" unfolding R2w_def e using assms(2) by (auto dest: list.set_sel(2))
  have 3: "R3 s ?s'" unfolding R3_def e by simp
  have 5: "R5 {} s ?s'" unfolding R5_def e dead_def using assms(2)
    by (cases q) (auto simp: deq_queues dest: list.set_sel(2))
  show "Tb (ev_run q) {} s ?s'" unfolding Tb_def using e 2 3 5 by (simp add: ev_run_def)
  show "Tm s ?s'" using e by (simp add: Tm_def R4_def)
qed

lemma W_deq:
  assumes "wf s" "queue q s = i # rest" "jobs s i = Some j"
  shows "W s = W (deq q s) + Suc (subs (fn j))"
proof -
  note hd = wf_head[OF assms(1,2)]
  have a: "\<forall>k \<in> set rest. weight (deq q s) k = weight s k"
    using hd(3) by (auto simp: weight_def assms(2))
  have b: "\<forall>k \<in> set (queue q' s). weight (deq q s) k = weight s k" if "q' \<noteq> q" for q'
    using hd(6) that by (auto simp: weight_def assms(2))
  have c: "weight s i = Suc (subs (fn j))" by (simp add: weight_def assms(3))
  show ?thesis
  proof (cases q)
    case QRead
    then show ?thesis using sum_weight_cong[OF a] sum_weight_cong[OF b[of QWrite]] c assms(2)
      by (simp add: W_def deq_queues)
  next
    case QWrite
    then show ?thesis using sum_weight_cong[OF a] sum_weight_cong[OF b[of QRead]] c assms(2)
      by (simp add: W_def deq_queues)
  qed
qed

lemma run_step:
  assumes "queue q s = i # rest" "0 < i" "jobs s i = Some j" "jtype j = Queued q"
  shows "run q s =
     (case exec (fn j) (log (Invoke (Queued q) i (case ctx j of None \<Rightarrow> This | Some x \<Rightarrow> Ctx x)) (deq q s)) of
        (None, s') \<Rightarrow> run q s'
      | (Some e, s') \<Rightarrow> run q (if onError s' then log (Handled e) s' else s'))"
proof -
  have "(set_queue q rest s)\<lparr>jobs := (jobs s)(i := None)\<rparr> = deq q s"
    by (simp add: deq_def assms(1))
  then show ?thesis using assms by (subst run.simps) simp
qed

lemma run_ok: "wf s \<Longrightarrow> \<exists>s'. run q s = Some (None, s') \<and> run_post q s s'"
proof (induction "W s" arbitrary: s rule: less_induct)
  case less
  show ?case
  proof (cases "queue q s")
    case Nil
    then have "run q s = Some (None, s)" by (subst run.simps) simp
    then show ?thesis using less(2) Nil by (simp add: run_post_def Tb_refl Tm_refl)
  next
    case (Cons i rest)
    note hd = wf_head[OF less(2) Cons]
    obtain j where j: "jobs s i = Some j" "jtype j = Queued q" using hd(2) by blast
    define r where "r = (case ctx j of None \<Rightarrow> This | Some x \<Rightarrow> Ctx x)"
    define sl where "sl = log (Invoke (Queued q) i r) (deq q s)"
    obtain res se where ex: "exec (fn j) sl = (res, se)" by (cases "exec (fn j) sl")
    define sh where "sh = (case res of None \<Rightarrow> se | Some e \<Rightarrow> if onError se then log (Handled e) se else se)"
    have step: "run q s = run q sh"
      using run_step[OF Cons hd(1) j] ex unfolding r_def[symmetric] sl_def[symmetric] sh_def
      by (cases res) simp_all
    have wl: "wf sl" unfolding sl_def using wf_deq[OF less(2) Cons] .
    have Tl: "Tb (ev_run q) {} s sl" "Tm s sl" unfolding sl_def using T_deq[OF less(2) Cons] by blast+
    have we: "wf se" using exec_ok(1)[OF wl, of "fn j"] ex by simp
    have Te: "Tb (ev_run q) {} sl se" "Tm sl se"
      using exec_T[OF wl, of "fn j"] ex Tb_mono[of ev_exec "{}" sl se "ev_run q" "{}"] ev_exec_run by auto
    have wh: "wf sh" unfolding sh_def using we by (cases res) (simp_all add: wf_log)
    have Th: "Tb (ev_run q) {} se sh" "Tm se sh"
      unfolding sh_def by (cases res; simp add: Tb_refl Tm_refl Tb_log Tm_log ev_run_def)+
    have "W se \<le> W sl + subs (fn j)" using exec_W(1)[OF wl, of "fn j"] ex by simp
    moreover have "W s = W sl + Suc (subs (fn j))" using W_deq[OF less(2) Cons j(1)] by (simp add: sl_def)
    moreover have "W sh = W se" unfolding sh_def by (cases res) simp_all
    ultimately have "W sh < W s" by simp
    from less(1)[OF this wh] obtain s' where s': "run q sh = Some (None, s')" "run_post q sh s'" by blast
    have "Tb (ev_run q) {} s s'" using Tl(1) Te(1) Th(1) s'(2) unfolding run_post_def
      by (meson Tb_trans)
    moreover have "Tm s s'" using Tl(2) Te(2) Th(2) s'(2) unfolding run_post_def
      by (meson Tm_trans)
    ultimately show ?thesis using step s' by (auto simp: run_post_def)
  qed
qed

lemma invoked_from_append [simp]: "invoked_from q (xs @ ys) = invoked_from q xs @ invoked_from q ys"
  by (induction q xs rule: invoked_from.induct) auto

lemma submitted_to_append [simp]: "submitted_to q (xs @ ys) = submitted_to q xs @ submitted_to q ys"
  by (induction q xs rule: submitted_to.induct) auto

lemma invoked_from_iff: "i \<in> set (invoked_from q tr) \<longleftrightarrow> (\<exists>r. Invoke (Queued q) i r \<in> set tr)"
  by (induction q tr rule: invoked_from.induct) auto

lemma submitted_to_iff: "i \<in> set (submitted_to q tr) \<longleftrightarrow> Submitted q i \<in> set tr"
  by (induction q tr rule: submitted_to.induct) auto

lemma invoked_from_single:
  "invoked_from q [e] = (case e of Invoke (Queued q') i r \<Rightarrow> if q' = q then [i] else [] | _ \<Rightarrow> [])"
  by (cases e; simp split: job_type.splits)

lemma submitted_to_single:
  "submitted_to q [e] = (case e of Submitted q' i \<Rightarrow> if q' = q then [i] else [] | _ \<Rightarrow> [])"
  by (cases e; simp)

lemma subseq_remove1: "subseq (remove1 x xs) xs"
  by (induction xs) auto

lemma fifo_refl: "fifo s s"
  by (simp add: fifo_def)

lemma fifo_trans:
  assumes "ext s s'" "ext s' s''" "fifo s s'" "fifo s' s''"
  shows "fifo s s''"
proof -
  note e = ext_trans(2)[OF assms(1,2)]
  have l: "lastId s \<le> lastId s'" "lastId s' \<le> lastId s''" using assms(3,4) by (simp_all add: fifo_def)
  have "subseq (invoked_from q (evs s s'') @ queue q s'') (queue q s @ submitted_to q (evs s s'')) \<and>
          sorted_wrt (<) (submitted_to q (evs s s'')) \<and>
          (\<forall>i \<in> set (submitted_to q (evs s s'')). lastId s < i \<and> i \<le> lastId s'')" for q
  proof -
    have a: "subseq (invoked_from q (evs s s') @ queue q s') (queue q s @ submitted_to q (evs s s'))"
      "sorted_wrt (<) (submitted_to q (evs s s'))"
      "\<forall>i \<in> set (submitted_to q (evs s s')). lastId s < i \<and> i \<le> lastId s'"
      using assms(3) by (simp_all add: fifo_def)
    have b: "subseq (invoked_from q (evs s' s'') @ queue q s'') (queue q s' @ submitted_to q (evs s' s''))"
      "sorted_wrt (<) (submitted_to q (evs s' s''))"
      "\<forall>i \<in> set (submitted_to q (evs s' s'')). lastId s' < i \<and> i \<le> lastId s''"
      using assms(4) by (simp_all add: fifo_def)
    have x: "subseq (invoked_from q (evs s s') @ (invoked_from q (evs s' s'') @ queue q s''))
        (invoked_from q (evs s s') @ (queue q s' @ submitted_to q (evs s' s'')))"
      using b(1) by (simp only: subseq_append')
    have "subseq ((invoked_from q (evs s s') @ queue q s') @ submitted_to q (evs s' s''))
        ((queue q s @ submitted_to q (evs s s')) @ submitted_to q (evs s' s''))"
      using a(1) by (simp only: subseq_append)
    then have y: "subseq (invoked_from q (evs s s') @ (queue q s' @ submitted_to q (evs s' s'')))
        (queue q s @ submitted_to q (evs s s') @ submitted_to q (evs s' s''))"
      by simp
    have 1: "subseq (invoked_from q (evs s s'') @ queue q s'') (queue q s @ submitted_to q (evs s s''))"
      unfolding e using subseq_order.trans[OF x y] by simp
    have 2: "sorted_wrt (<) (submitted_to q (evs s s''))"
      unfolding e using a(2,3) b(2,3) by (simp add: sorted_wrt_append) (meson le_less_trans)
    have 3: "\<forall>i \<in> set (submitted_to q (evs s s'')). lastId s < i \<and> i \<le> lastId s''"
      unfolding e using a(3) b(3) l by (auto simp: ball_Un)
    show ?thesis using 1 2 3 by blast
  qed
  then show ?thesis using l unfolding fifo_def by (meson le_trans)
qed

lemma fifo_log: "(\<forall>q i r. e \<noteq> Invoke (Queued q) i r) \<Longrightarrow> (\<forall>q i. e \<noteq> Submitted q i) \<Longrightarrow> fifo s (log e s)"
  by (simp add: fifo_def invoked_from_single submitted_to_single split: event.splits job_type.splits)

lemma fifo_submit: "fifo s (log (Submitted q (Suc (lastId s))) (request q (enq q f c s)))"
proof -
  let ?s' = "log (Submitted q (Suc (lastId s))) (request q (enq q f c s))"
  have e: "evs s ?s' = [Submitted q (Suc (lastId s))]"
    using extI[of ?s' s "[Submitted q (Suc (lastId s))]"] by simp
  show ?thesis unfolding fifo_def e by (simp add: request_host)
qed

lemma fifo_clear: "fifo s (clear i (log (Cleared i) s))"
proof -
  let ?s' = "clear i (log (Cleared i) s)"
  have e: "evs s ?s' = [Cleared i]"
    using extI[of ?s' s "[Cleared i]"] by (simp add: clear_log)
  have "subseq (queue q ?s') (queue q s)" for q
    by (rule clear_cases[of "log (Cleared i) s" i]; cases q; simp add: subseq_remove1)
  then show ?thesis unfolding fifo_def e by (simp add: clear_log)
qed

lemma fifo_addd: "fifo s (addd f s)"
proof -
  have t: "trace (addd f s) = trace s" "lastId s \<le> lastId (addd f s)" by (simp_all add: addd_def)
  have e: "evs s (addd f s) = []" using extI[of "addd f s" s "[]"] t by simp
  show ?thesis unfolding fifo_def e by (simp add: t)
qed

lemma fifo_rereg: "fifo s (rereg i n f c s)"
proof -
  have t: "trace (rereg i n f c s) = trace s" "lastId (rereg i n f c s) = lastId s"
    by (cases "jobs s i"; simp add: rereg_def raf_eq set_timer_def)+
  have q: "queue q (rereg i n f c s) = queue q s" for q
    by (cases "jobs s i"; cases q; simp add: rereg_def raf_eq set_timer_def)
  have e: "evs s (rereg i n f c s) = []" using extI[of "rereg i n f c s" s "[]"] t by simp
  show ?thesis unfolding fifo_def e by (simp add: t q)
qed

lemma fifo_deq:
  assumes "queue q s = i # rest"
  shows "fifo s (log (Invoke (Queued q) i r) (deq q s))"
proof -
  let ?s' = "log (Invoke (Queued q) i r) (deq q s)"
  have e: "evs s ?s' = [Invoke (Queued q) i r]"
    using extI[of ?s' s "[Invoke (Queued q) i r]"] by simp
  show ?thesis unfolding fifo_def e using assms by simp
qed

lemma exec_fifo:
  "wf s \<Longrightarrow> fifo s (snd (exec f s))"
  "wf s \<Longrightarrow> wpre i s \<Longrightarrow> 0 \<le> n \<Longrightarrow> fifo s (snd (wrapped i n f c s))"
  "wf s \<Longrightarrow> fifo s (snd (defer n f c s))"
proof (induction f s and i n f c s and n f c s rule: exec_wrapped_defer.induct)
  case (1 s)
  then show ?case by (simp add: fifo_refl)
next
  case (2 f c as s)
  let ?s1 = "log (Submitted QRead (Suc (lastId s))) (request QRead (enq QRead f c s))"
  have a: "wf ?s1" "R s ?s1" "fifo s ?s1" using 2(2) wf_submit R_submit fifo_submit by blast+
  moreover have "fifo ?s1 (snd (exec as ?s1))"
    using 2(1)[OF read_enq[symmetric]] \<open>wf ?s1\<close> by simp
  ultimately show ?case using exec_ok(1)[OF a(1), of as]
    by (auto simp: read_enq intro: fifo_trans R_ext)
next
  case (3 f c as s)
  let ?s1 = "log (Submitted QWrite (Suc (lastId s))) (request QWrite (enq QWrite f c s))"
  have a: "wf ?s1" "R s ?s1" "fifo s ?s1" using 3(2) wf_submit R_submit fifo_submit by blast+
  moreover have "fifo ?s1 (snd (exec as ?s1))"
    using 3(1)[OF write_enq[symmetric]] \<open>wf ?s1\<close> by simp
  ultimately show ?case using exec_ok(1)[OF a(1), of as]
    by (auto simp: write_enq intro: fifo_trans R_ext)
next
  case (4 i as s)
  let ?s1 = "clear i (log (Cleared i) s)"
  have a: "wf ?s1" "R s ?s1" "fifo s ?s1" using 4(2) by (simp_all add: wf_clear wf_log R_clear fifo_clear)
  then show ?case using 4(1) exec_ok(1)[OF a(1), of as] by (auto intro: fifo_trans R_ext)
next
  case (5 n f c as s)
  let ?s1 = "snd (defer n f c s)"
  have a: "wf ?s1" "R s ?s1" "fifo s ?s1" using 5 exec_ok(3) by simp_all
  show ?case
  proof (cases "defer n f c s")
    case (Pair r s1)
    then show ?thesis
    proof (cases r)
      case (Inl e)
      then show ?thesis using a Pair by simp
    next
      case (Inr v)
      then have "fifo s1 (snd (exec as s1))"
        using 5(2)[OF Pair[symmetric] Inr] a Pair by simp
      then show ?thesis using a Pair Inr exec_ok(1)[of s1 as] by (auto intro: fifo_trans R_ext)
    qed
  qed
next
  case (6 e as s)
  then show ?case by (simp add: fifo_refl)
next
  case (7 i frames f c s)
  show ?case
  proof (cases "frames = 0")
    case True
    let ?s1 = "log (Invoke Deferred i (case c of None \<Rightarrow> Undefined | Some x \<Rightarrow> Ctx x)) s"
    have w: "wf ?s1" using 7(2,3) by (rule wf_invoke)
    moreover have "fifo s ?s1" by (rule fifo_log) simp_all
    moreover have "fifo ?s1 (snd (exec f ?s1))"
      using 7(1)[OF True] \<open>wf ?s1\<close> by simp
    ultimately have "fifo s (snd (exec f ?s1))"
      using exec_ok(1)[OF w, of f] by (auto intro: fifo_trans[of s ?s1] R_ext)
    then show ?thesis unfolding wrapped_eq using True by (auto split: prod.splits option.splits)
  next
    case False
    then show ?thesis unfolding wrapped_eq using False by (simp add: fifo_rereg)
  qed
next
  case (8 frames f c s)
  show ?case
  proof (cases "frames < 0")
    case True
    then show ?thesis using 8(2) by (simp add: fifo_refl)
  next
    case False
    let ?s1 = "addd f s"
    let ?i = "Suc (lastId s)"
    let ?s2 = "snd (wrapped ?i frames f c ?s1)"
    have a: "wf ?s1" "R s ?s1" "wpre ?i ?s1" "fifo s ?s1"
      using 8(2) by (simp_all add: wf_addd R_addd wpre_addd fifo_addd)
    have b: "fifo ?s1 ?s2"
      using 8(1)[OF False add_Deferred[symmetric]] a False by simp
    have c: "R ?s1 ?s2" using exec_ok(2)[OF a(1) a(3), of frames f c] False by simp
    have "fifo s ?s2"
      using fifo_trans[OF R_ext[OF a(2)] R_ext[OF c] a(4) b] by simp
    then show ?thesis unfolding defer_eq using False by (auto split: prod.splits option.splits)
  qed
qed

text \<open>The drain, with the order in which it invokes.\<close>

lemma run_fifo: "wf s \<Longrightarrow> \<exists>s'. run q s = Some (None, s') \<and> ext s s' \<and> fifo s s'"
proof (induction "W s" arbitrary: s rule: less_induct)
  case less
  show ?case
  proof (cases "queue q s")
    case Nil
    then have "run q s = Some (None, s)" by (subst run.simps) simp
    then show ?thesis by (simp add: fifo_refl)
  next
    case (Cons i rest)
    note hd = wf_head[OF less(2) Cons]
    obtain j where j: "jobs s i = Some j" "jtype j = Queued q" using hd(2) by blast
    define r where "r = (case ctx j of None \<Rightarrow> This | Some x \<Rightarrow> Ctx x)"
    define sl where "sl = log (Invoke (Queued q) i r) (deq q s)"
    obtain res se where ex: "exec (fn j) sl = (res, se)" by (cases "exec (fn j) sl")
    define sh where "sh = (case res of None \<Rightarrow> se | Some e \<Rightarrow> if onError se then log (Handled e) se else se)"
    have step: "run q s = run q sh"
      using run_step[OF Cons hd(1) j] ex unfolding r_def[symmetric] sl_def[symmetric] sh_def
      by (cases res) simp_all
    have wl: "wf sl" unfolding sl_def using wf_deq[OF less(2) Cons] .
    have el: "ext s sl" unfolding sl_def using T_deq(1)[OF less(2) Cons] by (simp add: Tb_def)
    have fl: "fifo s sl" unfolding sl_def using fifo_deq[OF Cons] .
    have we: "wf se" using exec_ok(1)[OF wl, of "fn j"] ex by simp
    have ee: "ext sl se" using exec_ok(1)[OF wl, of "fn j"] ex R_ext by fastforce
    have fe: "fifo sl se" using exec_fifo(1)[OF wl, of "fn j"] ex by simp
    have wh: "wf sh" unfolding sh_def using we by (cases res) (simp_all add: wf_log)
    have eh: "ext se sh" unfolding sh_def by (cases res) simp_all
    have fh: "fifo se sh" unfolding sh_def by (cases res) (simp_all add: fifo_refl fifo_log)
    have "W se \<le> W sl + subs (fn j)" using exec_W(1)[OF wl, of "fn j"] ex by simp
    moreover have "W s = W sl + Suc (subs (fn j))" using W_deq[OF less(2) Cons j(1)] by (simp add: sl_def)
    moreover have "W sh = W se" unfolding sh_def by (cases res) simp_all
    ultimately have "W sh < W s" by simp
    from less(1)[OF this wh] obtain s' where s': "run q sh = Some (None, s')" "ext sh s'" "fifo sh s'" by blast
    have 1: "ext s se" "fifo s se" using ext_trans(1)[OF el ee] fifo_trans[OF el ee fl fe] by blast+
    have 2: "ext s sh" "fifo s sh" using ext_trans(1)[OF 1(1) eh] fifo_trans[OF 1(1) eh 1(2) fh] by blast+
    have 3: "ext s s'" "fifo s s'" using ext_trans(1)[OF 2(1) s'(2)] fifo_trans[OF 2(1) s'(2) 2(2) s'(3)] by blast+
    show ?thesis using step s'(1) 3 by simp
  qed
qed

text \<open>A frame.\<close>

lemma wf_mode [simp]: "wf (s\<lparr>mode := m\<rparr>) = wf s"
  by (simp add: wf_def wf_q_def wf_h_def wf_h1_def wf_h2_def wf_h3_def wf_h4_def wf_t_def queue_cases)

lemma wf_pending_False: "wf_q s \<Longrightarrow> wf_h1 s \<Longrightarrow> wf_h2 s \<Longrightarrow> wf_h3 s \<Longrightarrow> wf_t s \<Longrightarrow> wf (s\<lparr>pending := False\<rparr>)"
  by (simp add: wf_def wf_q_def wf_h_def wf_h1_def wf_h2_def wf_h3_def wf_h4_def wf_t_def queue_cases)

lemma wf_pending_False': "wf s \<Longrightarrow> wf (s\<lparr>pending := False\<rparr>)"
  by (rule wf_pending_False) (simp_all add: wf_def wf_h_def)

lemma Tb_cong:
  assumes "trace a' = trace a" "lastId a' = lastId a" "next_handle a' = next_handle a"
    "onError a' = onError a" "queue_read a' = queue_read a" "queue_write a' = queue_write a"
    "rafs a' = rafs a"
    and "trace b' = trace b" "lastId b' = lastId b" "next_handle b' = next_handle b"
    "onError b' = onError b" "queue_read b' = queue_read b" "queue_write b' = queue_write b"
    "rafs b' = rafs b"
  shows "Tb P X a' b' = Tb P X a b"
proof -
  have q: "queue q a' = queue q a" "queue q b' = queue q b" for q using assms by (cases q; simp)+
  have e: "evs a' b' = evs a b" "ext a' b' = ext a b" using assms by (simp_all add: evs_def ext_def)
  have d: "dead i a' = dead i a" "dead i b' = dead i b" for i using assms by (simp_all add: dead_def)
  show ?thesis unfolding Tb_def R2w_def R3_def R5_def e q d using assms by simp
qed

lemma frame_phases:
  assumes "wf (s\<lparr>pending := False\<rparr>)"
  shows "\<exists>s1 s2. run QRead (s\<lparr>pending := False, mode := Some Reading\<rparr>) = Some (None, s1) \<and>
      run_post QRead (s\<lparr>pending := False, mode := Some Reading\<rparr>) s1 \<and>
      run QWrite (s1\<lparr>mode := Some Writing\<rparr>) = Some (None, s2) \<and>
      run_post QWrite (s1\<lparr>mode := Some Writing\<rparr>) s2 \<and>
      frame s = Some (None, s2\<lparr>mode := None\<rparr>)"
proof -
  let ?sr = "s\<lparr>pending := False, mode := Some Reading\<rparr>"
  have "wf ?sr" using assms by simp
  from run_ok[OF this, of QRead] obtain s1 where
    s1: "run QRead ?sr = Some (None, s1)" "run_post QRead ?sr s1" by blast
  let ?sw = "s1\<lparr>mode := Some Writing\<rparr>"
  have "wf ?sw" using s1(2) by (simp add: run_post_def)
  from run_ok[OF this, of QWrite] obtain s2 where
    s2: "run QWrite ?sw = Some (None, s2)" "run_post QWrite ?sw s2" by blast
  have "frame s = Some (None, s2\<lparr>mode := None\<rparr>)"
    using s1(1) s2(1) by (simp add: frame_def)
  then show ?thesis using s1 s2 by blast
qed

lemma frame_ok:
  assumes "wf (s\<lparr>pending := False\<rparr>)"
  shows "\<exists>s'. frame s = Some (None, s') \<and> frame_post s s'"
proof -
  let ?sr = "s\<lparr>pending := False, mode := Some Reading\<rparr>"
  from frame_phases[OF assms] obtain s1 s2 where
    p: "run QRead ?sr = Some (None, s1)" "run_post QRead ?sr s1"
      "run QWrite (s1\<lparr>mode := Some Writing\<rparr>) = Some (None, s2)"
      "run_post QWrite (s1\<lparr>mode := Some Writing\<rparr>) s2"
      "frame s = Some (None, s2\<lparr>mode := None\<rparr>)" by blast
  have a: "Tb ev_frame {} s s1"
    using p(2) Tb_mono[of "ev_run QRead" "{}" ?sr s1 ev_frame "{}"] ev_run_frame
      Tb_cong[of ?sr s s1 s1 ev_frame "{}"]
    by (simp add: run_post_def)
  have b: "Tb ev_frame {} s1 (s2\<lparr>mode := None\<rparr>)"
    using p(4) Tb_mono[of "ev_run QWrite" "{}" "s1\<lparr>mode := Some Writing\<rparr>" s2 ev_frame "{}"] ev_run_frame
      Tb_cong[of "s1\<lparr>mode := Some Writing\<rparr>" s1 s2 "s2\<lparr>mode := None\<rparr>" ev_frame "{}"]
    by (simp add: run_post_def)
  have "wf (s2\<lparr>mode := None\<rparr>)" using p(4) by (simp add: run_post_def)
  then show ?thesis using p(5) Tb_trans[OF a b] by (simp add: frame_post_def)
qed

lemma Tk0_refl: "Tk0 s s"
  by (simp add: Tk0_def R2w_def R5_refl)

lemma Tk0_trans:
  assumes "Tk0 s s'" "Tk0 s' s''"
  shows "Tk0 s s''"
proof -
  have e: "ext s s'" "ext s' s''" using assms by (simp_all add: Tk0_def)
  note ee = ext_trans[OF e]
  have "R2w s s''" using R2w_trans[OF e] assms by (simp add: Tk0_def)
  moreover have "R5 {} s s''" using R5_trans[OF e] assms by (simp add: Tk0_def)
  moreover have "\<forall>p \<in> set (rafs s''). p \<in> set (rafs s) \<or> next_handle s \<le> fst p"
    using assms unfolding Tk0_def by (meson le_trans)
  ultimately show ?thesis using assms ee(1) unfolding Tk0_def by auto
qed

lemma Tk0_log: "(\<forall>t i r. e \<noteq> Invoke t i r) \<Longrightarrow> (\<forall>q i. e \<noteq> Submitted q i) \<Longrightarrow> Tk0 s (log e s)"
  unfolding Tk0_def R2w_def by (auto intro: R5_log)

lemma fired_trans:
  assumes "Tk0 s s1" "fired {h0} s s1" "Tk0 s1 s'" "fired H s1 s'"
    "\<forall>h \<in> H. h < next_handle s" "h0 \<notin> H"
  shows "fired (insert h0 H) s s'"
  unfolding fired_def
proof (intro allI impI)
  fix h i n f c
  assume a: "(h, Wrapped i n f c) \<in> set (rafs s)"
  have e: "evs s s' = evs s s1 @ evs s1 s'"
    using ext_trans(2)[of s s1 s'] assms(1,3) by (simp add: Tk0_def)
  have nh: "next_handle s \<le> next_handle s1" using assms(1) by (simp add: Tk0_def)
  let ?goal = "Cleared i \<in> set (evs s s') \<or>
        (if h \<in> insert h0 H
         then (if n = 0 then (\<exists>r. Invoke Deferred i r \<in> set (evs s s'))
               else (\<exists>h'. next_handle s \<le> h' \<and> (h', Wrapped i (n - 1) f c) \<in> set (rafs s')))
         else (h, Wrapped i n f c) \<in> set (rafs s'))"
  from assms(2) a have 1: "Cleared i \<in> set (evs s s1) \<or>
        (if h = h0
         then (if n = 0 then (\<exists>r. Invoke Deferred i r \<in> set (evs s s1))
               else (\<exists>h'. next_handle s \<le> h' \<and> (h', Wrapped i (n - 1) f c) \<in> set (rafs s1)))
         else (h, Wrapped i n f c) \<in> set (rafs s1))"
    unfolding fired_def by simp
  show ?goal
  proof (cases "Cleared i \<in> set (evs s s1)")
    case True
    then show ?thesis by (simp add: e)
  next
    case nc: False
    show ?thesis
    proof (cases "h = h0")
      case True
      show ?thesis
      proof (cases "n = 0")
        case True
        then show ?thesis using 1 nc \<open>h = h0\<close> by (auto simp: e)
      next
        case False
        then obtain h' where h': "next_handle s \<le> h'" "(h', Wrapped i (n - 1) f c) \<in> set (rafs s1)"
          using 1 nc \<open>h = h0\<close> by auto
        have "h' \<notin> H" using h'(1) assms(5) by auto
        then have "Cleared i \<in> set (evs s1 s') \<or> (h', Wrapped i (n - 1) f c) \<in> set (rafs s')"
          using assms(4) h'(2) unfolding fired_def by meson
        then show ?thesis using False \<open>h = h0\<close> h'(1) by (auto simp: e)
      qed
    next
      case False
      then have b: "(h, Wrapped i n f c) \<in> set (rafs s1)" using 1 nc by simp
      from assms(4) b have 2: "Cleared i \<in> set (evs s1 s') \<or>
        (if h \<in> H
         then (if n = 0 then (\<exists>r. Invoke Deferred i r \<in> set (evs s1 s'))
               else (\<exists>h'. next_handle s1 \<le> h' \<and> (h', Wrapped i (n - 1) f c) \<in> set (rafs s')))
         else (h, Wrapped i n f c) \<in> set (rafs s'))"
        unfolding fired_def by blast
      show ?thesis
      proof (cases "h \<in> H")
        case True
        then show ?thesis using 2 False nh by (cases "n = 0") (auto simp: e intro: le_trans)
      next
        case h: False
        then show ?thesis using 2 False by (auto simp: e)
      qed
    qed
  qed
qed

lemma unreg_fields [simp]:
  "lastId (unreg h s) = lastId s"
  "jobs (unreg h s) = jobs s"
  "mode (unreg h s) = mode s"
  "queue_read (unreg h s) = queue_read s"
  "queue_write (unreg h s) = queue_write s"
  "onError (unreg h s) = onError s"
  "trace (unreg h s) = trace s"
  "pending (unreg h s) = pending s"
  "next_handle (unreg h s) = next_handle s"
  "rafs (unreg h s) = filter (\<lambda>p. fst p \<noteq> h) (rafs s)"
  by (simp_all add: unreg_def)

lemma map_of_rafs:
  assumes "wf s" "map_of (rafs s) h = Some cb"
  shows "(h, cb) \<in> set (rafs s)" "\<forall>cb'. (h, cb') \<in> set (rafs s) \<longrightarrow> cb' = cb"
proof -
  have d: "distinct (map fst (rafs s))" using assms(1) by (simp add: wf_def wf_h_def wf_h1_def)
  show "(h, cb) \<in> set (rafs s)" using assms(2) by (rule map_of_SomeD)
  show "\<forall>cb'. (h, cb') \<in> set (rafs s) \<longrightarrow> cb' = cb"
    using d \<open>(h, cb) \<in> set (rafs s)\<close> eq_key_imp_eq_value by fastforce
qed

lemma unreg_parts:
  assumes "wf s"
  shows "wf_q (unreg h s)" "wf_h1 (unreg h s)" "wf_h2 (unreg h s)" "wf_h3 (unreg h s)" "wf_t (unreg h s)"
proof -
  have w: "wf_q s" "wf_h1 s" "wf_h2 s" "wf_h3 s" "wf_t s"
    using assms by (simp_all add: wf_def wf_h_def)
  show "wf_q (unreg h s)" using w(1) by (simp add: wf_q_def queue_cases)
  show "wf_h1 (unreg h s)" using w(2) by (auto simp: wf_h1_def distinct_map_filter)
  show "wf_h2 (unreg h s)" using w(3) unfolding wf_h2_def by (simp; blast)
  show "wf_h3 (unreg h s)" using w(4) unfolding wf_h3_def by (simp; blast)
  show "wf_t (unreg h s)" using w(5) unfolding wf_t_def by (simp; blast)
qed

lemma wf_unreg_frame: "wf s \<Longrightarrow> wf ((unreg h s)\<lparr>pending := False\<rparr>)"
  using unreg_parts[of s h] by (intro wf_pending_False)

lemma wf_unreg_wrapped:
  assumes "wf s" "map_of (rafs s) h = Some (Wrapped i n f c)"
  shows "wf (unreg h s)" "wpre i (unreg h s)" "0 \<le> n"
proof -
  note m = map_of_rafs[OF assms]
  have w: "wf_q s" "wf_h1 s" "wf_h2 s" "wf_h3 s" "wf_h4 s" "wf_t s"
    using assms by (simp_all add: wf_def wf_h_def)
  note a = unreg_parts[OF assms(1), of h]
  have "wf_h4 (unreg h s)" using w(5) m(2) unfolding wf_h4_def by (simp; blast)
  then show "wf (unreg h s)" using a by (simp add: wf_def wf_h_def)
  obtain j where j: "jobs s i = Some j" "timer j = Some h" using w(3) m(1) unfolding wf_h2_def by blast
  have jd: "jtype j = Deferred" using w(4) j unfolding wf_h3_def by blast
  have "(h', Wrapped i n' f' c') \<in> set (rafs s) \<Longrightarrow> h' = h" for h' n' f' c'
    using w(3) j unfolding wf_h2_def by fastforce
  then have "\<forall>h' n' f' c'. (h', Wrapped i n' f' c') \<notin> set (rafs (unreg h s))" by auto
  moreover have "i \<notin> set (invoked (trace s))" using w(6) m(1) unfolding wf_t_def by blast
  ultimately show "wpre i (unreg h s)" using j(1) jd by (simp add: wpre_def)
  show "0 \<le> n" using w(3) m(1) unfolding wf_h2_def by blast
qed

lemma dead_unreg: "dead i s \<Longrightarrow> dead i (unreg h s)"
  by (auto simp: dead_def)

lemma Tk0_unreg:
  assumes "Tb P X (unreg h s) s1" "\<forall>i \<in> X. \<not> dead i s" "mode s = None \<longrightarrow> mode s1 = None"
  shows "Tk0 s s1"
proof -
  let ?s0 = "unreg h s"
  have e: "evs s s1 = evs ?s0 s1" "ext s s1 = ext ?s0 s1" by (simp_all add: evs_def ext_def)
  have q: "queue q ?s0 = queue q s" for q by (cases q) simp_all
  have 2: "R2w s s1" using assms(1) unfolding Tb_def R2w_def e q by simp
  have 5: "R5 {} s s1" using assms(1,2) dead_unreg[of _ s h] unfolding Tb_def R5_def e by blast
  have 3: "\<forall>p \<in> set (rafs s1). p \<in> set (rafs s) \<or> next_handle s \<le> fst p"
    using assms(1) unfolding Tb_def R3_def by auto
  show ?thesis unfolding Tk0_def using assms(1,3) 2 3 5 unfolding Tb_def e by simp
qed

lemma fired_others:
  assumes "Tb P X (unreg h s) s1"
    and "(h', Wrapped i n f c) \<in> set (rafs s)" "h' \<noteq> h"
  shows "Cleared i \<in> set (evs s s1) \<or> (h', Wrapped i n f c) \<in> set (rafs s1)"
proof -
  have e: "evs s s1 = evs (unreg h s) s1" by (simp add: evs_def)
  have "(h', Wrapped i n f c) \<in> set (rafs (unreg h s))" using assms(2,3) by simp
  then show ?thesis using assms(1) unfolding Tb_def R3_def e by blast
qed

lemma handle_step:
  assumes "wf s" "map_of (rafs s) h = Some cb"
  shows "\<exists>r s1. call_frame_cb cb (unreg h s) = Some (r, s1) \<and> wf s1 \<and> Tk {h} s s1"
proof (cases cb)
  case FrameCb
  note m = map_of_rafs[OF assms]
  from frame_ok[OF wf_unreg_frame[OF assms(1), of h]] obtain s1 where
    s1: "frame (unreg h s) = Some (None, s1)" "frame_post (unreg h s) s1" by blast
  have T: "Tb ev_frame {} (unreg h s) s1" "wf s1" "mode s1 = None"
    using s1(2) by (simp_all add: frame_post_def)
  have "Tk0 s s1" using Tk0_unreg[OF T(1)] T(3) by simp
  moreover have "fired {h} s s1"
    unfolding fired_def using fired_others[OF T(1)] m(2) FrameCb by auto
  ultimately show ?thesis using s1(1) T(2) FrameCb by (simp add: call_frame_cb_def Tk_def)
next
  case (Wrapped i n f c)
  note m = map_of_rafs[OF assms]
  note u = wf_unreg_wrapped[OF assms(1) assms(2)[unfolded Wrapped]]
  let ?s0 = "unreg h s"
  obtain r s1 where w: "wrapped i n f c ?s0 = (r, s1)" by (cases "wrapped i n f c ?s0")
  have ok: "wf s1" "R ?s0 s1" "R5 {i} ?s0 s1"
    using exec_ok(2)[OF u, of f c] exec_dead(2)[OF u, of f c] w by simp_all
  have T: "Tb ev_exec {i} ?s0 s1" using R_Tb[OF ok(2,3)] .
  have nd: "\<not> dead i s" using m(1) Wrapped by (auto simp: dead_def)
  have "mode s1 = mode s" using ok(2) by (simp add: R_def R0_def)
  then have k0: "Tk0 s s1" using Tk0_unreg[OF T] nd by simp
  have own: "if n = 0 then (\<exists>r. Invoke Deferred i r \<in> set (evs s s1))
       else next_handle s \<le> next_handle s \<and> (next_handle s, Wrapped i (n - 1) f c) \<in> set (rafs s1)"
  proof (cases "n = 0")
    case True
    let ?sl = "log (Invoke Deferred i (case c of None \<Rightarrow> Undefined | Some x \<Rightarrow> Ctx x)) ?s0"
    have s1: "s1 = snd (exec f ?sl)" using w True unfolding wrapped_eq by (auto split: prod.splits option.splits)
    have "wf ?sl" using u(1,2) by (rule wf_invoke)
    then have "ext ?sl s1" using exec_ok(1)[of ?sl f] s1 by (simp add: R_def R0_def)
    then have "evs ?s0 s1 = evs ?s0 ?sl @ evs ?sl s1"
      using ext_trans[of ?s0 ?sl s1] by simp
    then have "Invoke Deferred i (case c of None \<Rightarrow> Undefined | Some x \<Rightarrow> Ctx x) \<in> set (evs ?s0 s1)"
      by simp
    moreover have "evs s s1 = evs ?s0 s1" by (simp add: evs_def)
    ultimately show ?thesis using True by auto
  next
    case False
    obtain j where j: "jobs ?s0 i = Some j" using u(2) by (auto simp: wpre_def)
    have "s1 = rereg i (n - 1) f c ?s0" using w False unfolding wrapped_eq by simp
    then show ?thesis using False by (simp add: rereg_eq[OF j])
  qed
  have "fired {h} s s1"
    unfolding fired_def
  proof (intro allI impI)
    fix h' i' n' f' c'
    assume a: "(h', Wrapped i' n' f' c') \<in> set (rafs s)"
    show "Cleared i' \<in> set (evs s s1) \<or>
        (if h' \<in> {h}
         then (if n' = 0 then (\<exists>r. Invoke Deferred i' r \<in> set (evs s s1))
               else (\<exists>h''. next_handle s \<le> h'' \<and> (h'', Wrapped i' (n' - 1) f' c') \<in> set (rafs s1)))
         else (h', Wrapped i' n' f' c') \<in> set (rafs s1))"
    proof (cases "h' = h")
      case True
      then have "Wrapped i' n' f' c' = Wrapped i n f c" using m(2) a Wrapped by blast
      then show ?thesis using own True by auto
    next
      case False
      then show ?thesis using fired_others[OF T a] by simp
    qed
  qed
  then show ?thesis using w ok(1) k0 Wrapped by (simp add: call_frame_cb_def Tk_def)
qed

lemma firedD:
  "fired H s s' \<Longrightarrow> (h, Wrapped i n f c) \<in> set (rafs s) \<Longrightarrow>
     Cleared i \<in> set (evs s s') \<or>
        (if h \<in> H
         then (if n = 0 then (\<exists>r. Invoke Deferred i r \<in> set (evs s s'))
               else (\<exists>h'. next_handle s \<le> h' \<and> (h', Wrapped i (n - 1) f c) \<in> set (rafs s')))
         else (h, Wrapped i n f c) \<in> set (rafs s'))"
  unfolding fired_def by blast

lemma fired_log:
  assumes "fired H s s1" "ext s s1"
  shows "fired H s (log e s1)"
  unfolding fired_def
proof (intro allI impI)
  fix h i n f c
  assume a: "(h, Wrapped i n f c) \<in> set (rafs s)"
  have e: "evs s (log e s1) = evs s s1 @ [e]" using ext_trans(2)[OF assms(2), of "log e s1"] by simp
  show "Cleared i \<in> set (evs s (log e s1)) \<or>
        (if h \<in> H
         then (if n = 0 then (\<exists>r. Invoke Deferred i r \<in> set (evs s (log e s1)))
               else (\<exists>h'. next_handle s \<le> h' \<and> (h', Wrapped i (n - 1) f c) \<in> set (rafs (log e s1))))
         else (h, Wrapped i n f c) \<in> set (rafs (log e s1)))"
    using firedD[OF assms(1) a] unfolding e
    by (cases "h \<in> H"; cases "n = 0"; simp; blast)
qed

lemma fired_skip:
  assumes "fired H s s'" "\<forall>cb. (h0, cb) \<notin> set (rafs s)"
  shows "fired (insert h0 H) s s'"
  unfolding fired_def
proof (intro allI impI)
  fix h i n f c
  assume a: "(h, Wrapped i n f c) \<in> set (rafs s)"
  then have "h \<noteq> h0" using assms(2) by blast
  then show "Cleared i \<in> set (evs s s') \<or>
        (if h \<in> insert h0 H
         then (if n = 0 then (\<exists>r. Invoke Deferred i r \<in> set (evs s s'))
               else (\<exists>h'. next_handle s \<le> h' \<and> (h', Wrapped i (n - 1) f c) \<in> set (rafs s')))
         else (h, Wrapped i n f c) \<in> set (rafs s'))"
    using firedD[OF assms(1) a] by simp
qed

lemma run_handles_ok:
  "wf s \<Longrightarrow> \<forall>h \<in> set hs. h < next_handle s \<Longrightarrow> distinct hs \<Longrightarrow>
   \<exists>s'. run_handles hs s = Some s' \<and> wf s' \<and> Tk (set hs) s s'"
proof (induction hs arbitrary: s)
  case Nil
  then show ?case by (simp add: Tk_def Tk0_refl fired_def)
next
  case (Cons h hs)
  show ?case
  proof (cases "map_of (rafs s) h")
    case None
    from Cons(1)[OF Cons(2)] Cons(3,4) obtain s' where
      s': "run_handles hs s = Some s'" "wf s'" "Tk (set hs) s s'" by auto
    have "\<forall>cb. (h, cb) \<notin> set (rafs s)" using None by (force simp: map_of_eq_None_iff)
    then have "fired (insert h (set hs)) s s'" using s'(3) fired_skip unfolding Tk_def by blast
    then show ?thesis using s' None by (simp add: Tk_def)
  next
    case (Some cb)
    from handle_step[OF Cons(2) Some] obtain r s1 where
      s1: "call_frame_cb cb (unreg h s) = Some (r, s1)" "wf s1" "Tk {h} s s1" by blast
    define s2 where "s2 = (case r of None \<Rightarrow> s1 | Some e \<Rightarrow> log (Uncaught e) s1)"
    have w2: "wf s2" unfolding s2_def using s1(2) by (cases r) (simp_all add: wf_log)
    have k1: "Tk0 s1 s2" unfolding s2_def by (cases r) (simp_all add: Tk0_refl Tk0_log)
    have k2: "Tk0 s s2" using Tk0_trans[OF _ k1] s1(3) by (simp add: Tk_def)
    have f2: "fired {h} s s2" unfolding s2_def using s1(3) fired_log[of "{h}" s s1]
      by (cases r) (simp_all add: Tk_def Tk0_def)
    have nh: "\<forall>h' \<in> set hs. h' < next_handle s2" using Cons(3) k2 by (auto simp: Tk0_def)
    from Cons(1)[OF w2 nh] Cons(4) obtain s' where
      s': "run_handles hs s2 = Some s'" "wf s'" "Tk (set hs) s2 s'" by auto
    have step: "run_handles (h # hs) s = Some s'"
      using Some s1(1) s'(1) unfolding s2_def by (cases r) (simp_all add: unreg_def)
    have "Tk0 s s'" using Tk0_trans[OF k2] s'(3) by (simp add: Tk_def)
    moreover have "fired (insert h (set hs)) s s'"
      using fired_trans[OF k2 f2, of s' "set hs"] s'(3) Cons(3,4) by (simp add: Tk_def)
    ultimately show ?thesis using step s'(2) by (simp add: Tk_def)
  qed
qed

lemma tick_ok:
  assumes "wf s"
  shows "\<exists>s'. tick s = Some s' \<and> wf s' \<and> Tk (fst ` set (rafs s)) s s'"
proof -
  have "wf_h1 s" using assms by (simp add: wf_def wf_h_def)
  then have "\<forall>h \<in> set (map fst (rafs s)). h < next_handle s" "distinct (map fst (rafs s))"
    by (auto simp: wf_h1_def)
  from run_handles_ok[OF assms this] show ?thesis by (simp add: tick_def)
qed

lemma wf_turn: "wf s \<Longrightarrow> wf (turn acts s)"
  using exec_ok(1)[of s acts] by (cases "exec acts s") (auto simp: turn_def wf_log split: option.splits)

lemma Tk0_exec: "wf s \<Longrightarrow> Tk0 s (snd (exec acts s))"
proof -
  assume "wf s"
  from exec_T[OF this, of acts] have T: "Tb ev_exec {} s (snd (exec acts s))" "Tm s (snd (exec acts s))" by blast+
  then show ?thesis unfolding Tk0_def Tb_def Tm_def R3_def by auto
qed

lemma Tk0_turn: "wf s \<Longrightarrow> Tk0 s (turn acts s)"
  using Tk0_exec[of s acts] Tk0_trans[OF _ Tk0_log]
  by (cases "exec acts s") (auto simp: turn_def split: option.splits)

lemma step_ok: "wf s \<Longrightarrow> \<exists>s'. apply_step x s = Some s' \<and> wf s' \<and> Tk0 s s'"
proof (cases x)
  case (Turn acts)
  assume "wf s"
  then show ?thesis using Turn wf_turn Tk0_turn by simp
next
  case Tick
  assume "wf s"
  from tick_ok[OF this] show ?thesis using Tick by (auto simp: Tk_def)
qed

lemma steps_ok: "wf s \<Longrightarrow> \<exists>s'. apply_steps xs s = Some s' \<and> wf s' \<and> Tk0 s s'"
proof (induction xs arbitrary: s)
  case Nil
  then show ?case by (simp add: Tk0_refl)
next
  case (Cons x xs)
  from step_ok[OF Cons(2), of x] obtain s1 where s1: "apply_step x s = Some s1" "wf s1" "Tk0 s s1" by blast
  from Cons(1)[OF s1(2)] obtain s' where s': "apply_steps xs s1 = Some s'" "wf s'" "Tk0 s1 s'" by blast
  show ?case using s1 s' Tk0_trans by auto
qed

lemma reachable_wf: "reachable s \<Longrightarrow> wf s \<and> mode s = None"
proof (induction rule: reachable.induct)
  case (init h)
  then show ?case by (simp add: wf_new) (simp add: new_FastDom_def)
next
  case (step s x s')
  then show ?case using step_ok[of s x] by (auto simp: Tk0_def)
qed

text \<open>
  C9: for every negative frame count \<open>defer\<close> returns at once, with no handle and
  without throwing, and leaves the whole state as it was: no job in the registry, no
  frame callback requested, no call of the callback.
\<close>

theorem defer_negative_noop:
  "frames < 0 \<Longrightarrow>
     defer frames f c s = (Inr None, s) \<and>
     jobs (snd (defer frames f c s)) = jobs s \<and>
     rafs (snd (defer frames f c s)) = rafs s \<and>
     trace (snd (defer frames f c s)) = trace s"
  by simp

theorem defer_negative_noop_witness:
  "(-1 :: int) < 0 \<and> defer (-1) [AThrow 0] None (new_FastDom True) = (Inr None, new_FastDom True) \<and>
   rafs (snd (defer (-1) [AThrow 0] None (new_FastDom True))) = [] \<and>
   trace (snd (defer (-1) [AThrow 0] None (new_FastDom True))) = []"
  using defer_negative_noop[of "-1" "[AThrow 0]" None "new_FastDom True"]
  by (simp add: new_FastDom_def)

text \<open>Draining a queue.\<close>

lemma run_drains:
  assumes "wf s"
  shows "\<exists>s' tr. run q s = Some (None, s') \<and> wf s' \<and> queue q s' = [] \<and> trace s' = trace s @ tr \<and>
     (\<forall>i. i \<in> set (queue q s) \<or> Submitted q i \<in> set tr \<longrightarrow>
        (\<exists>r. Invoke (Queued q) i r \<in> set tr) \<or> Cleared i \<in> set tr) \<and>
     (\<forall>q' i r. Invoke (Queued q') i r \<in> set tr \<longrightarrow> q' = q) \<and>
     (\<forall>x. Uncaught x \<notin> set tr)"
proof -
  from run_ok[OF assms, of q] obtain s' where
    s': "run q s = Some (None, s')" "run_post q s s'" by blast
  have T: "wf s'" "Tb (ev_run q) {} s s'" "queue q s' = []" using s'(2) by (simp_all add: run_post_def)
  have e: "trace s' = trace s @ evs s s'" using T(2) by (simp add: Tb_def ext_def)
  have 1: "\<forall>i. i \<in> set (queue q s) \<or> Submitted q i \<in> set (evs s s') \<longrightarrow>
        (\<exists>r. Invoke (Queued q) i r \<in> set (evs s s')) \<or> Cleared i \<in> set (evs s s')"
    using T(2,3) unfolding Tb_def R2w_def by (metis empty_iff empty_set)
  have 2: "\<forall>q' i r. Invoke (Queued q') i r \<in> set (evs s s') \<longrightarrow> q' = q" "\<forall>x. Uncaught x \<notin> set (evs s s')"
    using T(2) unfolding Tb_def ev_run_def by blast+
  show ?thesis using s'(1) T(1,3) e 1 2 by blast
qed

text \<open>
  C4, as stated, fails: a read job submitted by a running read job is run by the drain
  that is running, in the same frame; no later frame is requested for it.
\<close>

theorem drain_same_batch_counterexample:
  "map_option trace (tick (snd (read [ARead [] None] None (new_FastDom False)))) =
     Some [Invoke (Queued QRead) 1 This, Submitted QRead 2, Invoke (Queued QRead) 2 This] \<and>
   map_option rafs (tick (snd (read [ARead [] None] None (new_FastDom False)))) = Some []"
  by code_simp

text \<open>
  C7: after \<open>defer(2, cb)\<close> and \<open>clear\<close> of the returned id, the pending frame
  callback is cancelled, but the job's record is still in the registry.
\<close>

theorem clear_deferred_keeps_job_record:
  "rafs (snd (defer 2 [] None (new_FastDom False))) = [(1, Wrapped 1 1 [] None)] \<and>
   rafs (clear 1 (snd (defer 2 [] None (new_FastDom False)))) = [] \<and>
   map_option jtype (jobs (clear 1 (snd (defer 2 [] None (new_FastDom False)))) 1) = Some Deferred"
  by code_simp

text \<open>
  C2, as stated, fails: \<open>defer(0, cb)\<close> calls \<open>cb\<close> during the call of
  \<open>defer\<close>, and \<open>defer(1, cb)\<close> calls it in the first frame.
\<close>

theorem defer_zero_counterexample:
  "trace (snd (defer 0 [] None (new_FastDom False))) = [Invoke Deferred 1 Undefined] \<and>
   map_option trace (tick (snd (defer 1 [] None (new_FastDom False)))) = Some [Invoke Deferred 1 Undefined]"
  by code_simp

text \<open>Cancelling a queued job.\<close>

lemma dead_clear:
  assumes "wf s" "jobs s i = Some j" "jtype j = Queued q"
  shows "dead i (clear i s)"
proof -
  have w: "wf_q s" "wf_h2 s" "wf_h3 s" using assms(1) by (simp_all add: wf_def wf_h_def)
  have d: "distinct (queue_read s)" "distinct (queue_write s)" "i \<le> lastId s"
    using w(1) assms(2) unfolding wf_q_def by auto
  have o: "q = QRead \<Longrightarrow> i \<notin> set (queue_write s)" "q = QWrite \<Longrightarrow> i \<notin> set (queue_read s)"
    using w(1) assms(2,3) unfolding wf_q_def queue_cases by auto
  have r: "\<forall>h n f c. (h, Wrapped i n f c) \<notin> set (rafs s)"
    using w(2,3) assms(2,3) unfolding wf_h2_def wf_h3_def by fastforce
  show ?thesis
  proof (cases q)
    case QRead
    then show ?thesis using clear_read[OF assms(2)] assms(3) d o r by (simp add: dead_def)
  next
    case QWrite
    then show ?thesis using clear_write[OF assms(2)] assms(3) d o r by (simp add: dead_def)
  qed
qed

lemma clear_twice: "clear i (clear i s) = clear i s"
proof (rule clear_cases[of s i])
  fix j assume a: "jobs s i = Some j" "jtype j = Deferred" "clear i s = caf (timer j) s"
  have "clear i (caf (timer j) s) = caf (timer j) (caf (timer j) s)"
    using a(1,2) by (simp add: clear_def)
  also have "\<dots> = caf (timer j) s" by (cases "timer j") (simp_all add: caf_def)
  finally show ?thesis by (simp add: a(3))
qed (simp_all add: clear_def)

lemma clear_invoked:
  assumes "wf s" "k \<in> set (invoked (trace s))"
  shows "clear k s = s"
proof (rule clear_cases[of s k])
  fix j assume a: "jobs s k = Some j" "jtype j = Queued QRead"
  then have "k \<in> set (queue QRead s)" using assms(1) unfolding wf_def wf_q_def by blast
  then have False using assms unfolding wf_def wf_t_def by auto
  then show ?thesis ..
next
  fix j assume a: "jobs s k = Some j" "jtype j = Queued QWrite"
  then have "k \<in> set (queue QWrite s)" using assms(1) unfolding wf_def wf_q_def by blast
  then have False using assms unfolding wf_def wf_t_def by auto
  then show ?thesis ..
next
  fix j assume a: "jobs s k = Some j" "jtype j = Deferred" "clear k s = caf (timer j) s"
  have n: "\<forall>h n f c. (h, Wrapped k n f c) \<notin> set (rafs s)" using assms unfolding wf_def wf_t_def by blast
  show ?thesis
  proof (cases "timer j")
    case None
    then show ?thesis by (simp add: a(3) caf_def)
  next
    case (Some h)
    have "\<forall>cb. (h, cb) \<in> set (rafs s) \<longrightarrow> (\<exists>n f c. cb = Wrapped k n f c)"
      using assms(1) a(1) Some unfolding wf_def wf_h_def wf_h3_def by blast
    then have "\<forall>p \<in> set (rafs s). fst p \<noteq> h" using n by fastforce
    then have "filter (\<lambda>p. fst p \<noteq> h) (rafs s) = rafs s" by (simp add: filter_id_conv)
    then show ?thesis by (simp add: a(3) caf_def Some)
  qed
qed simp

text \<open>
  C5: once \<open>clear\<close> has been called on the id of a read or write job that has not run,
  no later turn or frame invokes that job; a second \<open>clear\<close> of the same id, a
  \<open>clear\<close> of an id that is not in the registry and a \<open>clear\<close> of an id that
  has already run leave the state as it is.
\<close>

theorem cancelled_job_never_runs:
  assumes "wf s" "jobs s i = Some j" "jtype j = Queued q"
  shows "(\<exists>s' tr. apply_steps xs (clear i s) = Some s' \<and> trace s' = trace s @ tr \<and>
            i \<notin> set (invoked (trace s')))
       \<and> clear i (clear i s) = clear i s
       \<and> (\<forall>k. jobs s k = None \<longrightarrow> clear k s = s)
       \<and> (\<forall>k \<in> set (invoked (trace s)). clear k s = s)"
proof -
  have d: "dead i (clear i s)" using dead_clear[OF assms] .
  have w: "wf (clear i s)" using assms(1) by (rule wf_clear)
  from steps_ok[OF w, of xs] obtain s' where
    s': "apply_steps xs (clear i s) = Some s'" "Tk0 (clear i s) s'" by blast
  have e: "trace s' = trace s @ evs (clear i s) s'" using s'(2) by (simp add: Tk0_def ext_def)
  have "i \<notin> set (invoked (evs (clear i s) s'))" using s'(2) d unfolding Tk0_def R5_def by blast
  moreover have "i \<in> set (queue q s)" using assms unfolding wf_def wf_q_def by blast
  then have "i \<notin> set (invoked (trace s))" using assms(1) unfolding wf_def wf_t_def by (cases q) auto
  ultimately have "i \<notin> set (invoked (trace s'))" by (simp add: e)
  then show ?thesis using s'(1) e clear_twice clear_None clear_invoked[OF assms(1)] by blast
qed

theorem cancelled_job_never_runs_witness:
  "wf (turn [ADefer 0 [] None, ARead [] None] (new_FastDom False)) \<and>
   map_option jtype (jobs (turn [ADefer 0 [] None, ARead [] None] (new_FastDom False)) 2) =
     Some (Queued QRead) \<and>
   invoked (trace (turn [ADefer 0 [] None, ARead [] None] (new_FastDom False))) = [1] \<and>
   jobs (turn [ADefer 0 [] None, ARead [] None] (new_FastDom False)) 5 = None \<and>
   (\<exists>s'. apply_steps [Tick, Turn [AClear 2], Tick]
            (clear 2 (turn [ADefer 0 [] None, ARead [] None] (new_FastDom False))) = Some s' \<and>
      2 \<notin> set (invoked (trace s'))) \<and>
   clear 2 (clear 2 (turn [ADefer 0 [] None, ARead [] None] (new_FastDom False))) =
     clear 2 (turn [ADefer 0 [] None, ARead [] None] (new_FastDom False)) \<and>
   clear 5 (turn [ADefer 0 [] None, ARead [] None] (new_FastDom False)) =
     turn [ADefer 0 [] None, ARead [] None] (new_FastDom False) \<and>
   clear 1 (turn [ADefer 0 [] None, ARead [] None] (new_FastDom False)) =
     turn [ADefer 0 [] None, ARead [] None] (new_FastDom False)"
proof -
  let ?s = "turn [ADefer 0 [] None, ARead [] None] (new_FastDom False)"
  have w: "wf ?s" using wf_turn[OF wf_new] .
  have c: "map_option jtype (jobs ?s 2) = Some (Queued QRead)" by code_simp
  then obtain j where j: "jobs ?s 2 = Some j" "jtype j = Queued QRead" by auto
  have i: "invoked (trace ?s) = [1]" by code_simp
  have n: "jobs ?s 5 = None" by code_simp
  note t = cancelled_job_never_runs[OF w j, of "[Tick, Turn [AClear 2], Tick]"]
  have 1: "clear 5 ?s = ?s" using t n by blast
  have 2: "clear 1 ?s = ?s" using t i by simp
  show ?thesis using w c i n t 1 2 by blast
qed

text \<open>The two phases of a frame.\<close>

lemma run_detail:
  assumes "wf s"
  shows "\<exists>s' tr. run q s = Some (None, s') \<and> wf s' \<and> queue q s' = [] \<and> trace s' = trace s @ tr \<and>
     mode s' = mode s \<and>
     (\<forall>i. i \<in> set (queue q s) \<or> Submitted q i \<in> set tr \<longrightarrow>
        (\<exists>r. Invoke (Queued q) i r \<in> set tr) \<or> Cleared i \<in> set tr) \<and>
     (\<forall>q' i. q' \<noteq> q \<longrightarrow> i \<in> set (queue q' s) \<or> Submitted q' i \<in> set tr \<longrightarrow>
        i \<in> set (queue q' s') \<or> Cleared i \<in> set tr) \<and>
     (\<forall>q' i r. Invoke (Queued q') i r \<in> set tr \<longrightarrow> q' = q) \<and>
     (mode s = Some Reading \<longrightarrow> pending s' = pending s \<and>
        (\<forall>h. (h, FrameCb) \<in> set (rafs s') \<longrightarrow> (h, FrameCb) \<in> set (rafs s))) \<and>
     (\<forall>q' i. Submitted q' i \<in> set tr \<longrightarrow> mode s \<noteq> Some Reading \<longrightarrow>
        \<not> (mode s = Some Writing \<and> q' = QWrite) \<longrightarrow>
        pending s' \<and> (\<exists>h. (h, FrameCb) \<in> set (rafs s'))) \<and>
     next_handle s \<le> next_handle s' \<and>
     (\<not> pending s \<longrightarrow> pending s' \<longrightarrow>
        (\<exists>h. next_handle s \<le> h \<and> (h, FrameCb) \<in> set (rafs s')))"
proof -
  from run_ok[OF assms, of q] obtain s' where
    s': "run q s = Some (None, s')" "run_post q s s'" by blast
  have T: "wf s'" "Tb (ev_run q) {} s s'" "Tm s s'" "queue q s' = []"
    using s'(2) by (simp_all add: run_post_def)
  define tr where "tr = evs s s'"
  have e: "trace s' = trace s @ tr" using T(2) by (simp add: Tb_def ext_def tr_def)
  have ev: "\<forall>q' i r. Invoke (Queued q') i r \<in> set tr \<longrightarrow> q' = q"
    using T(2) unfolding Tb_def ev_run_def tr_def by blast
  have r2: "\<forall>q' i. i \<in> set (queue q' s) \<or> Submitted q' i \<in> set tr \<longrightarrow>
        i \<in> set (queue q' s') \<or> Cleared i \<in> set tr \<or> (\<exists>r. Invoke (Queued q') i r \<in> set tr)"
    using T(2) unfolding Tb_def R2w_def tr_def by blast
  have 1: "\<forall>i. i \<in> set (queue q s) \<or> Submitted q i \<in> set tr \<longrightarrow>
        (\<exists>r. Invoke (Queued q) i r \<in> set tr) \<or> Cleared i \<in> set tr"
    using r2 T(4) by (metis empty_iff empty_set)
  have 2: "\<forall>q' i. q' \<noteq> q \<longrightarrow> i \<in> set (queue q' s) \<or> Submitted q' i \<in> set tr \<longrightarrow>
        i \<in> set (queue q' s') \<or> Cleared i \<in> set tr"
    using r2 ev by blast
  have 3: "mode s = Some Reading \<longrightarrow> pending s' = pending s \<and>
        (\<forall>h. (h, FrameCb) \<in> set (rafs s') \<longrightarrow> (h, FrameCb) \<in> set (rafs s))"
    using T(3) unfolding Tm_def R4_def by blast
  have h4: "pending s' \<longrightarrow> (\<exists>h. (h, FrameCb) \<in> set (rafs s'))"
    using T(1) by (simp add: wf_def wf_h_def wf_h4_def)
  have 4: "\<forall>q' i. Submitted q' i \<in> set tr \<longrightarrow> mode s \<noteq> Some Reading \<longrightarrow>
        \<not> (mode s = Some Writing \<and> q' = QWrite) \<longrightarrow>
        pending s' \<and> (\<exists>h. (h, FrameCb) \<in> set (rafs s'))"
    using T(3) h4 unfolding Tm_def R4_def tr_def by blast
  have 5: "mode s' = mode s" using T(3) by (simp add: Tm_def)
  have 6: "next_handle s \<le> next_handle s'" using T(3) by (simp add: Tm_def)
  have 7: "\<not> pending s \<longrightarrow> pending s' \<longrightarrow>
        (\<exists>h. next_handle s \<le> h \<and> (h, FrameCb) \<in> set (rafs s'))"
    using T(3) unfolding Tm_def R4_def by blast
  show ?thesis using s'(1) T(1,4) e 1 2 ev 3 4 5 6 7 by blast
qed

lemma frame_detail:
  assumes "wf s"
  shows "\<exists>sr sw tr_r tr_w.
     run QRead (s\<lparr>pending := False, mode := Some Reading\<rparr>) = Some (None, sr) \<and>
     trace sr = trace s @ tr_r \<and>
     run QWrite (sr\<lparr>mode := Some Writing\<rparr>) = Some (None, sw) \<and>
     trace sw = trace sr @ tr_w \<and>
     frame s = Some (None, sw\<lparr>mode := None\<rparr>) \<and> wf sr \<and> wf sw \<and>
     (\<forall>i. i \<in> set (queue_read s) \<or> Submitted QRead i \<in> set tr_r \<longrightarrow>
        (\<exists>r. Invoke (Queued QRead) i r \<in> set tr_r) \<or> Cleared i \<in> set tr_r) \<and>
     (\<forall>i. i \<in> set (queue_write s) \<or> Submitted QWrite i \<in> set tr_r \<longrightarrow>
        (\<exists>r. Invoke (Queued QWrite) i r \<in> set tr_w) \<or> Cleared i \<in> set (tr_r @ tr_w)) \<and>
     (\<forall>i r. Invoke (Queued QWrite) i r \<notin> set tr_r) \<and>
     (\<forall>i r. Invoke (Queued QRead) i r \<notin> set tr_w) \<and>
     pending sr = False \<and> (\<forall>h. (h, FrameCb) \<in> set (rafs sr) \<longrightarrow> (h, FrameCb) \<in> set (rafs s)) \<and>
     (\<forall>i. Submitted QRead i \<in> set tr_w \<longrightarrow>
        pending sw \<and> (\<exists>h. next_handle s \<le> h \<and> (h, FrameCb) \<in> set (rafs sw)) \<and>
        (i \<in> set (queue_read sw) \<or> Cleared i \<in> set tr_w))"
proof -
  let ?s0 = "s\<lparr>pending := False, mode := Some Reading\<rparr>"
  have w0: "wf ?s0" using assms wf_pending_False'[of s] by simp
  from run_detail[OF w0, of QRead] obtain sr tr_r where
    r: "run QRead ?s0 = Some (None, sr)" "wf sr" "trace sr = trace ?s0 @ tr_r" "mode sr = mode ?s0"
      "\<forall>i. i \<in> set (queue QRead ?s0) \<or> Submitted QRead i \<in> set tr_r \<longrightarrow>
        (\<exists>r. Invoke (Queued QRead) i r \<in> set tr_r) \<or> Cleared i \<in> set tr_r"
      "\<forall>q' i. q' \<noteq> QRead \<longrightarrow> i \<in> set (queue q' ?s0) \<or> Submitted q' i \<in> set tr_r \<longrightarrow>
        i \<in> set (queue q' sr) \<or> Cleared i \<in> set tr_r"
      "\<forall>q' i r. Invoke (Queued q') i r \<in> set tr_r \<longrightarrow> q' = QRead"
      "mode ?s0 = Some Reading \<longrightarrow> pending sr = pending ?s0 \<and>
        (\<forall>h. (h, FrameCb) \<in> set (rafs sr) \<longrightarrow> (h, FrameCb) \<in> set (rafs ?s0))"
      "next_handle ?s0 \<le> next_handle sr"
    by blast
  let ?s1 = "sr\<lparr>mode := Some Writing\<rparr>"
  have w1: "wf ?s1" using r(2) by simp
  from run_detail[OF w1, of QWrite] obtain sw tr_w where
    w: "run QWrite ?s1 = Some (None, sw)" "wf sw" "trace sw = trace ?s1 @ tr_w"
      "\<forall>i. i \<in> set (queue QWrite ?s1) \<or> Submitted QWrite i \<in> set tr_w \<longrightarrow>
        (\<exists>r. Invoke (Queued QWrite) i r \<in> set tr_w) \<or> Cleared i \<in> set tr_w"
      "\<forall>q' i. q' \<noteq> QWrite \<longrightarrow> i \<in> set (queue q' ?s1) \<or> Submitted q' i \<in> set tr_w \<longrightarrow>
        i \<in> set (queue q' sw) \<or> Cleared i \<in> set tr_w"
      "\<forall>q' i r. Invoke (Queued q') i r \<in> set tr_w \<longrightarrow> q' = QWrite"
      "\<forall>q' i. Submitted q' i \<in> set tr_w \<longrightarrow> mode ?s1 \<noteq> Some Reading \<longrightarrow>
        \<not> (mode ?s1 = Some Writing \<and> q' = QWrite) \<longrightarrow>
        pending sw \<and> (\<exists>h. (h, FrameCb) \<in> set (rafs sw))"
      "\<not> pending ?s1 \<longrightarrow> pending sw \<longrightarrow>
        (\<exists>h. next_handle ?s1 \<le> h \<and> (h, FrameCb) \<in> set (rafs sw))"
    by blast
  have f: "frame s = Some (None, sw\<lparr>mode := None\<rparr>)" using r(1) w(1) by (simp add: frame_def)
  have a: "\<forall>i. i \<in> set (queue_read s) \<or> Submitted QRead i \<in> set tr_r \<longrightarrow>
        (\<exists>r. Invoke (Queued QRead) i r \<in> set tr_r) \<or> Cleared i \<in> set tr_r"
    using r(5) by simp
  have b: "\<forall>i. i \<in> set (queue_write s) \<or> Submitted QWrite i \<in> set tr_r \<longrightarrow>
        i \<in> set (queue_write sr) \<or> Cleared i \<in> set tr_r"
    using r(6)[rule_format, of QWrite] by simp
  have c: "\<forall>i. i \<in> set (queue_write sr) \<longrightarrow>
        (\<exists>r. Invoke (Queued QWrite) i r \<in> set tr_w) \<or> Cleared i \<in> set tr_w"
    using w(4) by simp
  have bc: "\<forall>i. i \<in> set (queue_write s) \<or> Submitted QWrite i \<in> set tr_r \<longrightarrow>
        (\<exists>r. Invoke (Queued QWrite) i r \<in> set tr_w) \<or> Cleared i \<in> set (tr_r @ tr_w)"
    using b c by (simp, blast)
  have d: "\<forall>i r. Invoke (Queued QWrite) i r \<notin> set tr_r" "\<forall>i r. Invoke (Queued QRead) i r \<notin> set tr_w"
    using r(7) w(6) by blast+
  have e: "pending sr = False" "\<forall>h. (h, FrameCb) \<in> set (rafs sr) \<longrightarrow> (h, FrameCb) \<in> set (rafs s)"
    using r(8) by simp_all
  have n: "pending sw \<longrightarrow> (\<exists>h. next_handle s \<le> h \<and> (h, FrameCb) \<in> set (rafs sw))"
    using w(8) e(1) r(9) by (simp, meson le_trans)
  have g: "\<forall>i. Submitted QRead i \<in> set tr_w \<longrightarrow>
        pending sw \<and> (\<exists>h. next_handle s \<le> h \<and> (h, FrameCb) \<in> set (rafs sw)) \<and>
        (i \<in> set (queue_read sw) \<or> Cleared i \<in> set tr_w)"
    using w(7)[rule_format, of QRead] w(5)[rule_format, of QRead] n by simp
  have t: "trace sr = trace s @ tr_r" "trace sw = trace sr @ tr_w" using r(3) w(3) by simp_all
  show ?thesis using r(1) t(1) w(1) t(2) f r(2) w(2) a bc d e g by blast
qed




text \<open>Deferred jobs over several frames.\<close>

lemma ticks_Suc: "ticks (Suc k) s = (case ticks k s of None \<Rightarrow> None | Some s' \<Rightarrow> tick s')"
proof (induction k arbitrary: s)
  case 0
  then show ?case by (simp split: option.splits)
next
  case (Suc k)
  show ?case using Suc[of "the (tick s)"] by (cases "tick s") simp_all
qed

lemma ticks_ok: "wf s \<Longrightarrow> \<exists>s'. ticks k s = Some s' \<and> wf s' \<and> Tk0 s s'"
proof (induction k arbitrary: s)
  case 0
  then show ?case by (simp add: Tk0_refl)
next
  case (Suc k)
  from tick_ok[OF Suc(2)] obtain s1 where s1: "tick s = Some s1" "wf s1" "Tk0 s s1" by (auto simp: Tk_def)
  from Suc(1)[OF s1(2)] obtain s' where s': "ticks k s1 = Some s'" "wf s'" "Tk0 s1 s'" by blast
  show ?case using s1 s' Tk0_trans by auto
qed

lemma count_list_distinct: "distinct xs \<Longrightarrow> x \<in> set xs \<Longrightarrow> count_list xs x = 1"
  by (induction xs) auto

lemma defer_track:
  assumes "wf s" "(h, Wrapped i (int n) f c) \<in> set (rafs s)"
  shows "\<exists>s'. ticks k s = Some s' \<and> wf s' \<and> ext s s' \<and>
     (Cleared i \<in> set (evs s s') \<or>
      (if k \<le> n then (\<exists>h'. (h', Wrapped i (int (n - k)) f c) \<in> set (rafs s'))
       else i \<in> set (invoked (evs s s'))))"
proof (induction k)
  case 0
  then show ?case using assms by auto
next
  case (Suc k)
  then obtain sk where sk: "ticks k s = Some sk" "wf sk" "ext s sk"
    "Cleared i \<in> set (evs s sk) \<or>
      (if k \<le> n then (\<exists>h'. (h', Wrapped i (int (n - k)) f c) \<in> set (rafs sk))
       else i \<in> set (invoked (evs s sk)))" by blast
  from tick_ok[OF sk(2)] obtain s' where
    s': "tick sk = Some s'" "wf s'" "Tk0 sk s'" "fired (fst ` set (rafs sk)) sk s'"
    by (auto simp: Tk_def)
  have e1: "ext sk s'" using s'(3) by (simp add: Tk0_def)
  note e = ext_trans[OF sk(3) e1]
  have t: "ticks (Suc k) s = Some s'" using sk(1) s'(1) by (simp add: ticks_Suc del: ticks.simps)
  have "Cleared i \<in> set (evs s s') \<or>
      (if Suc k \<le> n then (\<exists>h'. (h', Wrapped i (int (n - Suc k)) f c) \<in> set (rafs s'))
       else i \<in> set (invoked (evs s s')))"
  proof (cases "Cleared i \<in> set (evs s sk)")
    case True
    then show ?thesis by (simp add: e(2))
  next
    case nc: False
    show ?thesis
    proof (cases "k \<le> n")
      case True
      then obtain h' where h': "(h', Wrapped i (int (n - k)) f c) \<in> set (rafs sk)" using sk(4) nc by auto
      have hh: "h' \<in> fst ` set (rafs sk)" using h' by force
      from firedD[OF s'(4) h'] hh have
        d: "Cleared i \<in> set (evs sk s') \<or>
          (if int (n - k) = 0 then (\<exists>r. Invoke Deferred i r \<in> set (evs sk s'))
           else (\<exists>h''. next_handle sk \<le> h'' \<and> (h'', Wrapped i (int (n - k) - 1) f c) \<in> set (rafs s')))"
        by simp
      show ?thesis
      proof (cases "k = n")
        case True
        then have "Cleared i \<in> set (evs sk s') \<or> i \<in> set (invoked (evs sk s'))"
          using d by (auto simp: invoked_iff)
        then show ?thesis using True by (auto simp: e(2))
      next
        case False
        then have le: "Suc k \<le> n" and eq: "int (n - k) - 1 = int (n - Suc k)"
          and ne: "int (n - k) \<noteq> 0" using True by auto
        from d ne have "Cleared i \<in> set (evs sk s') \<or>
            (\<exists>h''. (h'', Wrapped i (int (n - k) - 1) f c) \<in> set (rafs s'))"
          by (simp only: if_False) blast
        then have "Cleared i \<in> set (evs sk s') \<or>
            (\<exists>h''. (h'', Wrapped i (int (n - Suc k)) f c) \<in> set (rafs s'))"
          unfolding eq .
        then show ?thesis using le unfolding e(2) by (simp only: if_True set_append Un_iff) blast
      qed
    next
      case False
      then show ?thesis using sk(4) nc by (auto simp: e(2))
    qed
  qed
  then show ?case using t s'(2) e(1) by blast
qed

lemma defer_positive:
  assumes "wf s" "0 < N"
  shows "defer (int N) f c s = (Inr (Some (Suc (lastId s))), rereg (Suc (lastId s)) (int (N - 1)) f c (addd f s))"
    "wf (rereg (Suc (lastId s)) (int (N - 1)) f c (addd f s))"
    "(next_handle s, Wrapped (Suc (lastId s)) (int (N - 1)) f c) \<in> set (rafs (rereg (Suc (lastId s)) (int (N - 1)) f c (addd f s)))"
    "trace (rereg (Suc (lastId s)) (int (N - 1)) f c (addd f s)) = trace s"
proof -
  let ?i = "Suc (lastId s)"
  have eq: "int N - 1 = int (N - 1)" "int N \<noteq> 0" "\<not> int N < 0" using assms(2) by auto
  show d: "defer (int N) f c s = (Inr (Some ?i), rereg ?i (int (N - 1)) f c (addd f s))"
    unfolding defer_eq wrapped_eq using eq by simp
  show "wf (rereg ?i (int (N - 1)) f c (addd f s))"
    using exec_ok(3)[OF assms(1), of "int N" f c] d by simp
  have j: "jobs (addd f s) ?i = Some \<lparr>job_id = ?i, fn = f, ctx = None, jtype = Deferred, timer = None\<rparr>"
    by (simp add: addd_def)
  show "(next_handle s, Wrapped ?i (int (N - 1)) f c) \<in> set (rafs (rereg ?i (int (N - 1)) f c (addd f s)))"
    "trace (rereg ?i (int (N - 1)) f c (addd f s)) = trace s"
    by (simp_all add: rereg_eq[OF j]) (simp_all add: addd_def)
qed

lemma defer_zero:
  assumes "wf s"
  shows "wf (snd (defer 0 f c s))" "ext s (snd (defer 0 f c s))"
    "Suc (lastId s) \<in> set (invoked (evs s (snd (defer 0 f c s))))"
proof -
  let ?i = "Suc (lastId s)"
  let ?sl = "log (Invoke Deferred ?i (case c of None \<Rightarrow> Undefined | Some x \<Rightarrow> Ctx x)) (addd f s)"
  have s1: "snd (defer 0 f c s) = snd (exec f ?sl)"
    unfolding defer_eq wrapped_eq by (auto split: prod.splits option.splits)
  show w: "wf (snd (defer 0 f c s))" using exec_ok(3)[OF assms, of 0 f c] by simp
  have "wf ?sl" using wf_invoke[OF wf_addd[OF assms] wpre_addd[OF assms]] .
  then have e1: "ext ?sl (snd (exec f ?sl))" using exec_ok(1)[of ?sl f] by (simp add: R_def R0_def)
  have e0: "ext s ?sl" "evs s ?sl = [Invoke Deferred ?i (case c of None \<Rightarrow> Undefined | Some x \<Rightarrow> Ctx x)]"
    using extI[of ?sl s "[Invoke Deferred ?i (case c of None \<Rightarrow> Undefined | Some x \<Rightarrow> Ctx x)]"]
    by (simp_all add: addd_def)
  note e = ext_trans[OF e0(1) e1]
  show "ext s (snd (defer 0 f c s))" unfolding s1 by (rule e(1))
  show "?i \<in> set (invoked (evs s (snd (defer 0 f c s))))" unfolding s1 e(2) e0(2) by simp
qed

text \<open>
  C2, amended: \<open>defer(N, cb)\<close> invokes \<open>cb\<close> after N frames, not N+1. For N = 0 the
  call is made during \<open>defer\<close> itself. For N > 0 \<open>defer\<close> returns the job's id,
  the callback has not been called after fewer than N frames, and it has been called
  exactly once after N frames and after any number of frames beyond, provided no
  callback has called \<open>clear\<close> on the id.
\<close>

theorem defer_runs_after_N_frames:
  assumes "wf s"
  shows "\<exists>res s1. defer (int N) f c s = (res, s1) \<and>
     (0 < N \<longrightarrow> res = Inr (Some (Suc (lastId s))) \<and> trace s1 = trace s) \<and>
     (\<forall>k. \<exists>s2 tr. ticks k s1 = Some s2 \<and> trace s2 = trace s @ tr \<and>
        (Cleared (Suc (lastId s)) \<notin> set tr \<longrightarrow>
           count_list (invoked tr) (Suc (lastId s)) = (if k < N then 0 else 1)))"
proof (cases "0 < N")
  case True
  let ?i = "Suc (lastId s)"
  let ?s1 = "rereg ?i (int (N - 1)) f c (addd f s)"
  note d = defer_positive[OF assms True, of f c]
  have "\<exists>s2 tr. ticks k ?s1 = Some s2 \<and> trace s2 = trace s @ tr \<and>
        (Cleared ?i \<notin> set tr \<longrightarrow> count_list (invoked tr) ?i = (if k < N then 0 else 1))" for k
  proof -
    from defer_track[OF d(2,3), of k] obtain s2 where
      s2: "ticks k ?s1 = Some s2" "wf s2" "ext ?s1 s2"
        "Cleared ?i \<in> set (evs ?s1 s2) \<or>
          (if k \<le> N - 1 then (\<exists>h'. (h', Wrapped ?i (int (N - 1 - k)) f c) \<in> set (rafs s2))
           else ?i \<in> set (invoked (evs ?s1 s2)))" by blast
    define tr where "tr = evs ?s1 s2"
    have s4: "Cleared ?i \<in> set tr \<or>
          (if k \<le> N - 1 then (\<exists>h'. (h', Wrapped ?i (int (N - 1 - k)) f c) \<in> set (rafs s2))
           else ?i \<in> set (invoked tr))" using s2(4) by (simp only: tr_def)
    have t: "trace s2 = trace s @ tr" using s2(3) d(4) by (simp add: ext_def tr_def)
    have wt: "distinct (invoked (trace s2))"
      "\<forall>h n f c. (h, Wrapped ?i n f c) \<in> set (rafs s2) \<longrightarrow> ?i \<notin> set (invoked (trace s2))"
      using s2(2) unfolding wf_def wf_t_def by blast+
    have "count_list (invoked tr) ?i = (if k < N then 0 else 1)" if nc: "Cleared ?i \<notin> set tr"
    proof (cases "k < N")
      case True
      then have "k \<le> N - 1" by simp
      then have "\<exists>h'. (h', Wrapped ?i (int (N - 1 - k)) f c) \<in> set (rafs s2)"
        using s4 nc by metis
      then have "?i \<notin> set (invoked tr)" using wt(2) by (auto simp: t)
      then show ?thesis using True by (simp add: count_list_0_iff)
    next
      case False
      then have "\<not> k \<le> N - 1" using \<open>0 < N\<close> by simp
      then have "?i \<in> set (invoked tr)" using s4 nc by metis
      moreover have "distinct (invoked tr)" using wt(1) by (simp add: t)
      ultimately show ?thesis using False by (simp add: count_list_distinct)
    qed
    then show ?thesis using s2(1) t by blast
  qed
  then show ?thesis using d(1,4) True by auto
next
  case False
  then have N: "N = 0" by simp
  let ?i = "Suc (lastId s)"
  obtain res s1 where r: "defer 0 f c s = (res, s1)" by (cases "defer 0 f c s")
  have z: "wf s1" "ext s s1" "?i \<in> set (invoked (evs s s1))" using defer_zero[OF assms, of f c] r by simp_all
  have "\<exists>s2 tr. ticks k s1 = Some s2 \<and> trace s2 = trace s @ tr \<and>
        (Cleared ?i \<notin> set tr \<longrightarrow> count_list (invoked tr) ?i = (if k < N then 0 else 1))" for k
  proof -
    from ticks_ok[OF z(1), of k] obtain s2 where s2: "ticks k s1 = Some s2" "wf s2" "Tk0 s1 s2" by blast
    have e1: "ext s1 s2" using s2(3) by (simp add: Tk0_def)
    note e = ext_trans[OF z(2) e1]
    define tr where "tr = evs s s2"
    have t: "trace s2 = trace s @ tr" using e(1) by (simp add: ext_def tr_def)
    have "?i \<in> set (invoked tr)" using z(3) by (simp add: tr_def e(2))
    moreover have "distinct (invoked tr)" using s2(2) unfolding wf_def wf_t_def by (simp add: t)
    ultimately have "count_list (invoked tr) ?i = 1" by (rule count_list_distinct[rotated])
    then show ?thesis using s2(1) t N by auto
  qed
  then show ?thesis using r N by auto
qed

theorem defer_runs_after_N_frames_witness:
  "wf (new_FastDom False) \<and>
   fst (defer (int 3) [] None (new_FastDom False)) = Inr (Some 1) \<and>
   (\<exists>s2. ticks 2 (snd (defer (int 3) [] None (new_FastDom False))) = Some s2 \<and>
      Cleared 1 \<notin> set (trace s2) \<and> count_list (invoked (trace s2)) 1 = 0) \<and>
   (\<exists>s2. ticks 3 (snd (defer (int 3) [] None (new_FastDom False))) = Some s2 \<and>
      Cleared 1 \<notin> set (trace s2) \<and> count_list (invoked (trace s2)) 1 = 1)"
proof -
  let ?s = "new_FastDom False"
  have t0: "trace ?s = []" "Suc (lastId ?s) = 1" by (simp_all add: new_FastDom_def)
  have c2: "map_option trace (ticks 2 (snd (defer (int 3) [] None ?s))) = Some []"
    by code_simp
  have c3: "map_option trace (ticks 3 (snd (defer (int 3) [] None ?s))) = Some [Invoke Deferred 1 Undefined]"
    by code_simp
  from defer_runs_after_N_frames[where s = ?s and N = 3 and f = "[]" and c = None, OF wf_new]
  obtain res s1 where d: "defer (int 3) [] None ?s = (res, s1)" "res = Inr (Some 1)"
    and k: "\<And>k. \<exists>s2 tr. ticks k s1 = Some s2 \<and> trace s2 = tr \<and>
        (Cleared 1 \<notin> set tr \<longrightarrow> count_list (invoked tr) 1 = (if k < 3 then 0 else 1))"
    unfolding t0 by (auto simp del: defer.simps ticks.simps)
  have s1: "snd (defer (int 3) [] None ?s) = s1" using d(1) by (simp del: defer.simps)
  from k[of 2] obtain s2 where a: "ticks 2 s1 = Some s2"
    "Cleared 1 \<notin> set (trace s2) \<longrightarrow> count_list (invoked (trace s2)) 1 = 0"
    by (auto simp del: ticks.simps)
  have a': "trace s2 = []" using c2 a(1) unfolding s1 by (simp del: ticks.simps)
  from k[of 3] obtain s3 where b: "ticks 3 s1 = Some s3"
    "Cleared 1 \<notin> set (trace s3) \<longrightarrow> count_list (invoked (trace s3)) 1 = 1"
    by (auto simp del: ticks.simps)
  have b': "trace s3 = [Invoke Deferred 1 Undefined]" using c3 b(1) unfolding s1 by (simp del: ticks.simps)
  have "Cleared 1 \<notin> set (trace s2)" "Cleared 1 \<notin> set (trace s3)" by (simp_all add: a' b')
  then show ?thesis using wf_new[of False] d a b unfolding s1
    by (simp del: defer.simps ticks.simps)
qed

text \<open>
  What a drain does with a failure. When the callback of the first job of a queue fails,
  the drain goes on and returns with the queue empty, every job that was queued behind
  the failing one is invoked (unless \<open>clear\<close> is called on it), and no failure
  reaches the host. If a handler is set, the failure is handed to it once, right after
  the failing callback; if none is set, nothing records the failure.
\<close>

lemma failure_goes_to_handler_once:
  assumes "wf s" "queue q s = i # rest" "jobs s i = Some j"
    and "exec (fn j)
           (log (Invoke (jtype j) i (case ctx j of None \<Rightarrow> This | Some x \<Rightarrow> Ctx x))
              ((set_queue q rest s)\<lparr>jobs := (jobs s)(i := None)\<rparr>)) = (Some e, s1)"
  shows "\<exists>s2 tr0 tr.
     run q s = Some (None, s2) \<and>
     run q (if onError s then log (Handled e) s1 else s1) = Some (None, s2) \<and>
     queue q s2 = [] \<and>
     trace s1 = trace s @ tr0 \<and>
     trace s2 = trace s1 @ (if onError s then [Handled e] else []) @ tr \<and>
     (\<forall>k \<in> set rest. (\<exists>r. Invoke (Queued q) k r \<in> set tr) \<or> Cleared k \<in> set (tr0 @ tr)) \<and>
     (\<forall>x. Uncaught x \<notin> set (tr0 @ tr))"
proof -
  note hd = wf_head[OF assms(1,2)]
  have jt: "jtype j = Queued q" using hd(2) assms(3) by auto
  define r where "r = (case ctx j of None \<Rightarrow> This | Some x \<Rightarrow> Ctx x)"
  define sl where "sl = log (Invoke (Queued q) i r) (deq q s)"
  have dq: "(set_queue q rest s)\<lparr>jobs := (jobs s)(i := None)\<rparr> = deq q s"
    by (simp add: deq_def assms(2))
  have ex: "exec (fn j) sl = (Some e, s1)" using assms(4) unfolding dq jt sl_def r_def .
  have wl: "wf sl" unfolding sl_def using wf_deq[OF assms(1,2)] .
  have Tl: "Tb (ev_run q) {} s sl" unfolding sl_def using T_deq[OF assms(1,2)] by blast
  have w1: "wf s1" using exec_ok(1)[OF wl, of "fn j"] ex by simp
  have T1: "Tb ev_exec {} sl s1" using exec_T[OF wl, of "fn j"] ex by simp
  have oe: "onError s1 = onError s" using Tl T1 by (simp add: Tb_def)
  define sh where "sh = (if onError s then log (Handled e) s1 else s1)"
  have step: "run q s = run q sh"
    using run_step[OF assms(2) hd(1) assms(3) jt] ex oe
    unfolding r_def[symmetric] sl_def[symmetric] sh_def by simp
  have wh: "wf sh" unfolding sh_def using w1 by (simp add: wf_log)
  from run_detail[OF wh, of q] obtain s2 tr where
    d: "run q sh = Some (None, s2)" "queue q s2 = []" "trace s2 = trace sh @ tr"
      "\<forall>k. k \<in> set (queue q sh) \<or> Submitted q k \<in> set tr \<longrightarrow>
        (\<exists>r. Invoke (Queued q) k r \<in> set tr) \<or> Cleared k \<in> set tr"
    by blast
  from run_drains[OF wh, of q] d(1,3) have u: "\<forall>x. Uncaught x \<notin> set tr" by auto
  define tr0 where "tr0 = evs s s1"
  have e0: "ext s sl" "ext sl s1" using Tl T1 by (simp_all add: Tb_def)
  note e = ext_trans[OF e0]
  have t0: "trace s1 = trace s @ tr0" using e(1) by (simp add: ext_def tr0_def)
  have th: "trace sh = trace s1 @ (if onError s then [Handled e] else [])" by (simp add: sh_def)
  have qh: "queue q sh = queue q s1" by (simp add: sh_def)
  have el: "evs s sl = [Invoke (Queued q) i r]"
    using extI[of sl s "[Invoke (Queued q) i r]"] by (simp add: sl_def)
  have rest: "\<forall>k \<in> set rest. k \<in> set (queue q s1) \<or> Cleared k \<in> set tr0"
  proof
    fix k assume "k \<in> set rest"
    then have "k \<in> set (queue q sl)" by (simp add: sl_def assms(2))
    then have "k \<in> set (queue q s1) \<or> Cleared k \<in> set (evs sl s1) \<or>
        (\<exists>r. Invoke (Queued q) k r \<in> set (evs sl s1))"
      using T1 unfolding Tb_def R2w_def by blast
    moreover have "\<forall>r. Invoke (Queued q) k r \<notin> set (evs sl s1)"
      using T1 unfolding Tb_def ev_exec_def by blast
    ultimately show "k \<in> set (queue q s1) \<or> Cleared k \<in> set tr0"
      unfolding tr0_def e(2) by auto
  qed
  have 1: "\<forall>k \<in> set rest. (\<exists>r. Invoke (Queued q) k r \<in> set tr) \<or> Cleared k \<in> set (tr0 @ tr)"
    using rest d(4) qh by (simp, blast)
  have "\<forall>x. Uncaught x \<notin> set tr0"
    using T1 unfolding tr0_def e(2) el Tb_def ev_exec_def by auto
  then have 2: "\<forall>x. Uncaught x \<notin> set (tr0 @ tr)" using u by simp
  have 3: "trace s2 = trace s1 @ (if onError s then [Handled e] else []) @ tr"
    using d(3) th by simp
  show ?thesis using step d(1,2) t0 3 1 2 unfolding sh_def by auto
qed

lemma failure_goes_to_handler_once_example:
  "wf (turn [ARead [AThrow 7] None, ARead [] None] (new_FastDom True)) \<and>
   queue QRead (turn [ARead [AThrow 7] None, ARead [] None] (new_FastDom True)) = [1, 2] \<and>
   map_option fn (jobs (turn [ARead [AThrow 7] None, ARead [] None] (new_FastDom True)) 1) = Some [AThrow 7] \<and>
   onError (turn [ARead [AThrow 7] None, ARead [] None] (new_FastDom True)) \<and>
   (\<exists>s2. run QRead (turn [ARead [AThrow 7] None, ARead [] None] (new_FastDom True)) = Some (None, s2) \<and>
      queue QRead s2 = [] \<and>
      trace s2 = [Submitted QRead 1, Submitted QRead 2, Invoke (Queued QRead) 1 This,
                  Handled (Thrown 7), Invoke (Queued QRead) 2 This])"
proof -
  let ?s = "turn [ARead [AThrow 7] None, ARead [] None] (new_FastDom True)"
  let ?j = "\<lparr>job_id = 1, fn = [AThrow 7], ctx = None, jtype = Queued QRead, timer = None\<rparr>"
  let ?s1 = "log (Invoke (jtype ?j) 1 (case ctx ?j of None \<Rightarrow> This | Some x \<Rightarrow> Ctx x))
              ((set_queue QRead [2] ?s)\<lparr>jobs := (jobs ?s)(1 := None)\<rparr>)"
  have w: "wf ?s" using wf_turn[OF wf_new] .
  have q: "queue QRead ?s = [1, 2]"
    by (simp add: turn_def read_enq new_FastDom_def log_def enq_def request_def raf_def)
  have j: "jobs ?s 1 = Some ?j"
    by (simp add: turn_def read_enq new_FastDom_def log_def enq_def request_def raf_def)
  have o: "onError ?s"
    by (simp add: turn_def read_enq new_FastDom_def log_def enq_def request_def raf_def)
  have x: "exec (fn ?j) ?s1 = (Some (Thrown 7), ?s1)" by simp
  have c: "map_option (\<lambda>p. trace (snd p)) (run QRead ?s) =
      Some [Submitted QRead 1, Submitted QRead 2, Invoke (Queued QRead) 1 This,
            Handled (Thrown 7), Invoke (Queued QRead) 2 This]"
    by code_simp
  from failure_goes_to_handler_once[OF w q j x]
  obtain s2 where s2: "run QRead ?s = Some (None, s2)" "queue QRead s2 = []" by blast
  have "trace s2 = [Submitted QRead 1, Submitted QRead 2, Invoke (Queued QRead) 1 This,
            Handled (Thrown 7), Invoke (Queued QRead) 2 This]"
    using c s2(1) by simp
  then show ?thesis using w q j o s2 by simp
qed

text \<open>
  C8: in the example of the source's own comment the sandbox holds the tasks 0 and 1 and
  the tasks 2 and 3 were submitted directly. After \<open>clear()\<close> on the sandbox, task 1 is
  still in the sandbox's list and still queued: the loop of \<open>clearAll\<close> splices the
  array it walks, and skips every second task.
\<close>

theorem sandbox_clear_skips_second_task:
  "sb_reads (fst sandbox_example) = [0, 1] \<and> reads (snd sandbox_example) = [0, 1, 2, 3] \<and>
   sb_reads (fst (sandbox_clear None sandbox_example)) = [1] \<and>
   reads (snd (sandbox_clear None sandbox_example)) = [1, 2, 3]"
  by code_simp

text \<open>The first job of a queue, when its callback starts by submitting a job.\<close>

lemma run_head:
  assumes "wf s" "queue q s = i # rest" "jobs s i = Some j"
    and "fn j = ARead g c # acts \<and> q' = QRead \<or> fn j = AWrite g c # acts \<and> q' = QWrite"
  shows "\<exists>s' r tr'. run q s = Some (None, s') \<and>
     trace s' = trace s @ Invoke (Queued q) i r # Submitted q' (Suc (lastId s)) # tr'"
proof -
  note hd = wf_head[OF assms(1,2)]
  have jt: "jtype j = Queued q" using hd(2) assms(3) by auto
  define r where "r = (case ctx j of None \<Rightarrow> This | Some x \<Rightarrow> Ctx x)"
  define sl where "sl = log (Invoke (Queued q) i r) (deq q s)"
  have wl: "wf sl" unfolding sl_def using wf_deq[OF assms(1,2)] .
  have ll: "lastId sl = lastId s" "trace sl = trace s @ [Invoke (Queued q) i r]"
    by (simp_all add: sl_def)
  define s1 where "s1 = log (Submitted q' (Suc (lastId s))) (request q' (enq q' g c sl))"
  have w1: "wf s1" unfolding s1_def using wf_submit[OF wl, of q' g c] by (simp add: ll)
  have t1: "trace s1 = trace s @ [Invoke (Queued q) i r, Submitted q' (Suc (lastId s))]"
    by (simp add: s1_def ll request_host)
  have x: "exec (fn j) sl = exec acts s1"
    using assms(4) by (auto simp: s1_def read_enq write_enq ll)
  obtain res se where ex: "exec acts s1 = (res, se)" by (cases "exec acts s1")
  have we: "wf se" and e1: "ext s1 se" using exec_ok(1)[OF w1, of acts] ex R_ext by fastforce+
  define sh where "sh = (case res of None \<Rightarrow> se | Some e \<Rightarrow> if onError se then log (Handled e) se else se)"
  have step: "run q s = run q sh"
    using run_step[OF assms(2) hd(1) assms(3) jt] x ex
    unfolding r_def[symmetric] sl_def[symmetric] sh_def
    by (cases res) simp_all
  have wh: "wf sh" unfolding sh_def using we by (cases res) (simp_all add: wf_log)
  have eh: "ext se sh" unfolding sh_def by (cases res) simp_all
  from run_fifo[OF wh, of q] obtain s' where s': "run q sh = Some (None, s')" "ext sh s'" by blast
  have "ext s1 s'" using ext_trans(1)[OF ext_trans(1)[OF e1 eh] s'(2)] .
  then have "trace s' = trace s @ Invoke (Queued q) i r # Submitted q' (Suc (lastId s)) # evs s1 s'"
    by (simp add: ext_def t1)
  then show ?thesis using step s'(1) by auto
qed

text \<open>
  C3: with no handler set, the failure of a job is dropped. The drain goes on and the
  job queued behind the failing one is invoked, but the failure reaches neither a
  handler nor the host: the trace of the frame holds no \<open>Handled\<close> and no
  \<open>Uncaught\<close> event. With a handler set, the same input hands the failure to the
  handler once.
\<close>

theorem failure_dropped_without_handler:
  "map_option trace (tick (snd (read [AThrow 7] None (new_FastDom False)))) =
     Some [Invoke (Queued QRead) 1 This] \<and>
   map_option trace (tick (turn [ARead [AThrow 7] None, ARead [] None] (new_FastDom False))) =
     Some [Submitted QRead 1, Submitted QRead 2,
           Invoke (Queued QRead) 1 This, Invoke (Queued QRead) 2 This] \<and>
   map_option trace (tick (turn [ARead [AThrow 7] None, ARead [] None] (new_FastDom True))) =
     Some [Submitted QRead 1, Submitted QRead 2,
           Invoke (Queued QRead) 1 This, Handled (Thrown 7), Invoke (Queued QRead) 2 This]"
  by code_simp

text \<open>
  C4, amended: a drain works on the queue itself. It returns with the queue empty; every
  job that was queued when it started and every job submitted to that queue while it
  ran has been invoked by this drain, unless \<open>clear\<close> was called on it; no job is
  lost, and no id is invoked twice. The jobs are invoked in the order of the queue: the
  ids invoked are, in this order, a subsequence of the ids queued at the start followed
  by the ids submitted meanwhile in the order of their submission, and these ids are
  distinct. So a job submitted during the drain is invoked after every job queued
  before it.
\<close>

theorem drain_runs_jobs_submitted_meanwhile:
  assumes "wf s"
  shows "\<exists>s' tr. run q s = Some (None, s') \<and> queue q s' = [] \<and> trace s' = trace s @ tr \<and>
     (\<forall>i. i \<in> set (queue q s) \<or> Submitted q i \<in> set tr \<longrightarrow>
        (\<exists>r. Invoke (Queued q) i r \<in> set tr) \<or> Cleared i \<in> set tr) \<and>
     distinct (invoked (trace s')) \<and>
     subseq (invoked_from q tr) (queue q s @ submitted_to q tr) \<and>
     distinct (queue q s @ submitted_to q tr)"
proof -
  from run_drains[OF assms, of q] obtain s' tr where
    a: "run q s = Some (None, s')" "wf s'" "queue q s' = []" "trace s' = trace s @ tr"
      "\<forall>i. i \<in> set (queue q s) \<or> Submitted q i \<in> set tr \<longrightarrow>
        (\<exists>r. Invoke (Queued q) i r \<in> set tr) \<or> Cleared i \<in> set tr" by blast
  from run_fifo[OF assms, of q] a(1) have f: "ext s s'" "fifo s s'" by auto
  have tr: "evs s s' = tr" using extI[OF a(4)] by simp
  have o: "subseq (invoked_from q tr @ queue q s') (queue q s @ submitted_to q tr)"
    "sorted_wrt (<) (submitted_to q tr)"
    "\<forall>i \<in> set (submitted_to q tr). lastId s < i"
    using f(2) unfolding fifo_def tr by simp_all
  have 1: "subseq (invoked_from q tr) (queue q s @ submitted_to q tr)" using o(1) a(3) by simp
  have wq: "wf_q s" using assms by (simp add: wf_def)
  have q1: "distinct (queue q s)" using wq unfolding wf_q_def by (cases q) simp_all
  have q2: "\<forall>i \<in> set (queue q s). i \<le> lastId s" using wq unfolding wf_q_def by blast
  have q3: "distinct (submitted_to q tr)" using o(2) strict_sorted_iff by blast
  have "set (queue q s) \<inter> set (submitted_to q tr) = {}" using q2 o(3) by fastforce
  then have 2: "distinct (queue q s @ submitted_to q tr)" using q1 q3 by simp
  have "distinct (invoked (trace s'))" using a(2) by (simp add: wf_def wf_t_def)
  then show ?thesis using a 1 2 by blast
qed

theorem drain_runs_jobs_submitted_meanwhile_witness:
  "wf (turn [ARead [ARead [] None] None, ARead [] None] (new_FastDom False)) \<and>
   queue QRead (turn [ARead [ARead [] None] None, ARead [] None] (new_FastDom False)) = [1, 2] \<and>
   (\<exists>s' tr. run QRead (turn [ARead [ARead [] None] None, ARead [] None] (new_FastDom False)) = Some (None, s') \<and>
      queue QRead s' = [] \<and>
      trace s' = trace (turn [ARead [ARead [] None] None, ARead [] None] (new_FastDom False)) @ tr \<and>
      tr = [Invoke (Queued QRead) 1 This, Submitted QRead 3,
            Invoke (Queued QRead) 2 This, Invoke (Queued QRead) 3 This] \<and>
      subseq (invoked_from QRead tr) ([1, 2] @ submitted_to QRead tr) \<and>
      distinct (invoked (trace s')))"
proof -
  let ?s = "turn [ARead [ARead [] None] None, ARead [] None] (new_FastDom False)"
  have w: "wf ?s" using wf_turn[OF wf_new] .
  have q: "queue QRead ?s = [1, 2]" by code_simp
  have t: "trace ?s = [Submitted QRead 1, Submitted QRead 2]" by code_simp
  have c: "map_option (\<lambda>p. trace (snd p)) (run QRead ?s) =
      Some [Submitted QRead 1, Submitted QRead 2, Invoke (Queued QRead) 1 This, Submitted QRead 3,
            Invoke (Queued QRead) 2 This, Invoke (Queued QRead) 3 This]"
    by code_simp
  from drain_runs_jobs_submitted_meanwhile[OF w, of QRead] obtain s' tr where
    s': "run QRead ?s = Some (None, s')" "queue QRead s' = []" "trace s' = trace ?s @ tr"
      "distinct (invoked (trace s'))"
      "subseq (invoked_from QRead tr) (queue QRead ?s @ submitted_to QRead tr)"
    by blast
  have "tr = [Invoke (Queued QRead) 1 This, Submitted QRead 3,
            Invoke (Queued QRead) 2 This, Invoke (Queued QRead) 3 This]"
    using c s'(1,3) t by simp
  then show ?thesis using w q s' by auto
qed

text \<open>
  C6: in a frame, a write job submitted while the read queue is drained is invoked by
  the drain of the write queue of the same frame (unless \<open>clear\<close> is called on it),
  and the reading phase requests no frame callback. A read job submitted while the write
  queue is drained is not invoked in this frame: a new frame callback is pending when
  the frame ends, and the reading phase of the next frame invokes the job (unless
  \<open>clear\<close> is called on it). These submissions do occur: when the callback of the
  first read job starts with \<open>write(g)\<close>, the trace of the reading phase starts with
  the call of that job and the submission of \<open>g\<close>; when the callback of the first job
  of the write queue starts with \<open>read(g)\<close>, the trace of the writing phase starts
  with the call of that job and the submission of \<open>g\<close>.
\<close>

theorem nested_submissions:
  assumes "wf s"
  shows "\<exists>sr sw tr_r tr_w sr' tr_r'.
     run QRead (s\<lparr>pending := False, mode := Some Reading\<rparr>) = Some (None, sr) \<and>
     trace sr = trace s @ tr_r \<and>
     run QWrite (sr\<lparr>mode := Some Writing\<rparr>) = Some (None, sw) \<and>
     trace sw = trace sr @ tr_w \<and>
     frame s = Some (None, sw\<lparr>mode := None\<rparr>) \<and>
     (\<forall>i. Submitted QWrite i \<in> set tr_r \<longrightarrow>
        (\<exists>r. Invoke (Queued QWrite) i r \<in> set tr_w) \<or> Cleared i \<in> set (tr_r @ tr_w)) \<and>
     pending sr = False \<and>
     (\<forall>h. (h, FrameCb) \<in> set (rafs sr) \<longrightarrow> (h, FrameCb) \<in> set (rafs s)) \<and>
     (\<forall>i. Submitted QRead i \<in> set tr_w \<longrightarrow>
        (\<forall>r. Invoke (Queued QRead) i r \<notin> set tr_w) \<and>
        pending sw \<and> (\<exists>h. next_handle s \<le> h \<and> (h, FrameCb) \<in> set (rafs sw))) \<and>
     run QRead ((sw\<lparr>mode := None\<rparr>)\<lparr>pending := False, mode := Some Reading\<rparr>) = Some (None, sr') \<and>
     trace sr' = trace sw @ tr_r' \<and>
     (\<forall>i. Submitted QRead i \<in> set tr_w \<longrightarrow>
        (\<exists>r. Invoke (Queued QRead) i r \<in> set tr_r') \<or> Cleared i \<in> set (tr_w @ tr_r')) \<and>
     (\<forall>i rest j g c acts.
        queue_read s = i # rest \<and> jobs s i = Some j \<and> fn j = AWrite g c # acts \<longrightarrow>
        (\<exists>r tr'. tr_r = Invoke (Queued QRead) i r # Submitted QWrite (Suc (lastId s)) # tr')) \<and>
     (\<forall>i rest j g c acts.
        queue_write sr = i # rest \<and> jobs sr i = Some j \<and> fn j = ARead g c # acts \<longrightarrow>
        (\<exists>r tr'. tr_w = Invoke (Queued QWrite) i r # Submitted QRead (Suc (lastId sr)) # tr'))"
proof -
  from frame_detail[OF assms] obtain sr sw tr_r tr_w where
    f: "run QRead (s\<lparr>pending := False, mode := Some Reading\<rparr>) = Some (None, sr)"
      "trace sr = trace s @ tr_r"
      "run QWrite (sr\<lparr>mode := Some Writing\<rparr>) = Some (None, sw)"
      "trace sw = trace sr @ tr_w"
      "frame s = Some (None, sw\<lparr>mode := None\<rparr>)" "wf sw"
      "\<forall>i. i \<in> set (queue_write s) \<or> Submitted QWrite i \<in> set tr_r \<longrightarrow>
        (\<exists>r. Invoke (Queued QWrite) i r \<in> set tr_w) \<or> Cleared i \<in> set (tr_r @ tr_w)"
      "\<forall>i r. Invoke (Queued QRead) i r \<notin> set tr_w"
      "pending sr = False" "\<forall>h. (h, FrameCb) \<in> set (rafs sr) \<longrightarrow> (h, FrameCb) \<in> set (rafs s)"
      "\<forall>i. Submitted QRead i \<in> set tr_w \<longrightarrow>
        pending sw \<and> (\<exists>h. next_handle s \<le> h \<and> (h, FrameCb) \<in> set (rafs sw)) \<and>
        (i \<in> set (queue_read sw) \<or> Cleared i \<in> set tr_w)"
      "wf sr"
    by blast
  let ?s3 = "sw\<lparr>mode := None\<rparr>"
  have w3: "wf ?s3" using f(6) by simp
  from frame_detail[OF w3] obtain sr' tr_r' where
    n: "run QRead (?s3\<lparr>pending := False, mode := Some Reading\<rparr>) = Some (None, sr')"
      "trace sr' = trace ?s3 @ tr_r'"
      "\<forall>i. i \<in> set (queue_read ?s3) \<or> Submitted QRead i \<in> set tr_r' \<longrightarrow>
        (\<exists>r. Invoke (Queued QRead) i r \<in> set tr_r') \<or> Cleared i \<in> set tr_r'"
    by blast
  have 1: "\<forall>i. Submitted QWrite i \<in> set tr_r \<longrightarrow>
        (\<exists>r. Invoke (Queued QWrite) i r \<in> set tr_w) \<or> Cleared i \<in> set (tr_r @ tr_w)"
    using f(7) by blast
  have 2: "\<forall>i. Submitted QRead i \<in> set tr_w \<longrightarrow>
        (\<forall>r. Invoke (Queued QRead) i r \<notin> set tr_w) \<and>
        pending sw \<and> (\<exists>h. next_handle s \<le> h \<and> (h, FrameCb) \<in> set (rafs sw))"
    using f(8,11) by blast
  have 3: "\<forall>i. Submitted QRead i \<in> set tr_w \<longrightarrow>
        (\<exists>r. Invoke (Queued QRead) i r \<in> set tr_r') \<or> Cleared i \<in> set (tr_w @ tr_r')"
    using f(11) n(3) by (simp, blast)
  have 4: "trace sr' = trace sw @ tr_r'" using n(2) by simp
  let ?s0 = "s\<lparr>pending := False, mode := Some Reading\<rparr>"
  have w0: "wf ?s0" using assms wf_pending_False'[of s] by simp
  have 5: "\<exists>r tr'. tr_r = Invoke (Queued QRead) i r # Submitted QWrite (Suc (lastId s)) # tr'"
    if h: "queue_read s = i # rest \<and> jobs s i = Some j \<and> fn j = AWrite g c # acts" for i rest j g c acts
  proof -
    have "queue QRead ?s0 = i # rest" "jobs ?s0 i = Some j" using h by simp_all
    from run_head[OF w0 this, of g c acts QWrite] h f(1,2) show ?thesis by auto
  qed
  let ?s1 = "sr\<lparr>mode := Some Writing\<rparr>"
  have w1: "wf ?s1" using f(12) by simp
  have 6: "\<exists>r tr'. tr_w = Invoke (Queued QWrite) i r # Submitted QRead (Suc (lastId sr)) # tr'"
    if h: "queue_write sr = i # rest \<and> jobs sr i = Some j \<and> fn j = ARead g c # acts" for i rest j g c acts
  proof -
    have "queue QWrite ?s1 = i # rest" "jobs ?s1 i = Some j" using h by simp_all
    from run_head[OF w1 this, of g c acts QRead] h f(3,4) show ?thesis by auto
  qed
  have c5: "\<forall>i rest j g c acts.
        queue_read s = i # rest \<and> jobs s i = Some j \<and> fn j = AWrite g c # acts \<longrightarrow>
        (\<exists>r tr'. tr_r = Invoke (Queued QRead) i r # Submitted QWrite (Suc (lastId s)) # tr')"
    using 5 by blast
  have c6: "\<forall>i rest j g c acts.
        queue_write sr = i # rest \<and> jobs sr i = Some j \<and> fn j = ARead g c # acts \<longrightarrow>
        (\<exists>r tr'. tr_w = Invoke (Queued QWrite) i r # Submitted QRead (Suc (lastId sr)) # tr')"
    using 6 by blast
  show ?thesis
    apply (rule exI[of _ sr], rule exI[of _ sw], rule exI[of _ tr_r], rule exI[of _ tr_w],
        rule exI[of _ sr'], rule exI[of _ tr_r'])
    using f(1,2,3,4,5) 1 f(9,10) 2 n(1) 4 3 c5 c6 by simp
qed

theorem nested_submissions_witness:
  "wf (turn [ARead [AWrite [] None] None, AWrite [ARead [] None] None] (new_FastDom False)) \<and>
   queue_read (turn [ARead [AWrite [] None] None, AWrite [ARead [] None] None] (new_FastDom False)) = [1] \<and>
   map_option fn (jobs (turn [ARead [AWrite [] None] None, AWrite [ARead [] None] None] (new_FastDom False)) 1) =
     Some [AWrite [] None] \<and>
   (\<exists>sr sw sr'.
     run QRead ((turn [ARead [AWrite [] None] None, AWrite [ARead [] None] None] (new_FastDom False))
        \<lparr>pending := False, mode := Some Reading\<rparr>) = Some (None, sr) \<and>
     trace sr = [Submitted QRead 1, Submitted QWrite 2,
                 Invoke (Queued QRead) 1 This, Submitted QWrite 3] \<and>
     pending sr = False \<and>
     queue_write sr = [2, 3] \<and> map_option fn (jobs sr 2) = Some [ARead [] None] \<and>
     run QWrite (sr\<lparr>mode := Some Writing\<rparr>) = Some (None, sw) \<and>
     trace sw = trace sr @ [Invoke (Queued QWrite) 2 This, Submitted QRead 4,
                            Invoke (Queued QWrite) 3 This] \<and>
     pending sw \<and>
     (\<exists>h. next_handle (turn [ARead [AWrite [] None] None, AWrite [ARead [] None] None] (new_FastDom False)) \<le> h \<and>
          (h, FrameCb) \<in> set (rafs sw)) \<and>
     run QRead ((sw\<lparr>mode := None\<rparr>)\<lparr>pending := False, mode := Some Reading\<rparr>) = Some (None, sr') \<and>
     trace sr' = trace sw @ [Invoke (Queued QRead) 4 This])"
proof -
  let ?s = "turn [ARead [AWrite [] None] None, AWrite [ARead [] None] None] (new_FastDom False)"
  have w: "wf ?s" using wf_turn[OF wf_new] .
  have q: "queue_read ?s = [1]" by code_simp
  have j: "map_option fn (jobs ?s 1) = Some [AWrite [] None]" by code_simp
  have c1: "map_option (\<lambda>p. trace (snd p)) (run QRead (?s\<lparr>pending := False, mode := Some Reading\<rparr>)) =
      Some [Submitted QRead 1, Submitted QWrite 2, Invoke (Queued QRead) 1 This, Submitted QWrite 3]"
    by code_simp
  have c1q: "map_option (\<lambda>p. queue_write (snd p)) (run QRead (?s\<lparr>pending := False, mode := Some Reading\<rparr>)) =
      Some [2, 3]"
    by code_simp
  have c1j: "map_option (\<lambda>p. map_option fn (jobs (snd p) 2)) (run QRead (?s\<lparr>pending := False, mode := Some Reading\<rparr>)) =
      Some (Some [ARead [] None])"
    by code_simp
  have c2: "map_option (\<lambda>p. trace (snd p)) (frame ?s) =
      Some [Submitted QRead 1, Submitted QWrite 2, Invoke (Queued QRead) 1 This, Submitted QWrite 3,
            Invoke (Queued QWrite) 2 This, Submitted QRead 4, Invoke (Queued QWrite) 3 This]"
    by code_simp
  have c3: "Option.bind (frame ?s) (\<lambda>p. map_option (\<lambda>p'. trace (snd p'))
        (run QRead ((snd p)\<lparr>pending := False, mode := Some Reading\<rparr>))) =
      Some [Submitted QRead 1, Submitted QWrite 2, Invoke (Queued QRead) 1 This, Submitted QWrite 3,
            Invoke (Queued QWrite) 2 This, Submitted QRead 4, Invoke (Queued QWrite) 3 This,
            Invoke (Queued QRead) 4 This]"
    by code_simp
  from nested_submissions[OF w] obtain sr sw tr_r tr_w sr' tr_r' where
    f: "run QRead (?s\<lparr>pending := False, mode := Some Reading\<rparr>) = Some (None, sr)"
      "run QWrite (sr\<lparr>mode := Some Writing\<rparr>) = Some (None, sw)"
      "trace sw = trace sr @ tr_w"
      "frame ?s = Some (None, sw\<lparr>mode := None\<rparr>)"
      "pending sr = False"
      "\<forall>i. Submitted QRead i \<in> set tr_w \<longrightarrow>
        (\<forall>r. Invoke (Queued QRead) i r \<notin> set tr_w) \<and>
        pending sw \<and> (\<exists>h. next_handle ?s \<le> h \<and> (h, FrameCb) \<in> set (rafs sw))"
      "run QRead ((sw\<lparr>mode := None\<rparr>)\<lparr>pending := False, mode := Some Reading\<rparr>) = Some (None, sr')"
    by (elim exE conjE) (rule that, assumption+)
  have r: "trace sr = [Submitted QRead 1, Submitted QWrite 2, Invoke (Queued QRead) 1 This, Submitted QWrite 3]"
    using c1 f(1) by simp
  have rq: "queue_write sr = [2, 3]" "map_option fn (jobs sr 2) = Some [ARead [] None]"
    using c1q c1j f(1) by simp_all
  have t: "trace sw = [Submitted QRead 1, Submitted QWrite 2, Invoke (Queued QRead) 1 This, Submitted QWrite 3,
            Invoke (Queued QWrite) 2 This, Submitted QRead 4, Invoke (Queued QWrite) 3 This]"
    using c2 f(4) by simp
  have tw: "tr_w = [Invoke (Queued QWrite) 2 This, Submitted QRead 4, Invoke (Queued QWrite) 3 This]"
    using f(3) r t by simp
  have p: "pending sw \<and> (\<exists>h. next_handle ?s \<le> h \<and> (h, FrameCb) \<in> set (rafs sw))"
    using f(6)[rule_format, of 4] tw by simp
  have n: "trace sr' = trace sw @ [Invoke (Queued QRead) 4 This]"
    using c3 f(4,7) t by simp
  show ?thesis using w q j f(1,2,5,7) r rq t p n by simp
qed

text \<open>
  C10: the counter starts at 0 and is incremented before use, so every id that
  \<open>read\<close>, \<open>write\<close> or \<open>defer\<close> returns is positive. The invariant
  holds in every reachable state. In every state that satisfies it the queued ids are
  positive, and the loop of the drain takes each of them as a job: it returns with the
  queue empty, and every id that was queued has been invoked by then, unless
  \<open>clear\<close> was called on it. The loop depends on this: with the id 0 at the head of
  the queue it stops at once and leaves the rest of the queue where it is.
\<close>

theorem ids_positive_and_drain_ends_on_empty_queue:
  "lastId (new_FastDom h) = 0 \<and> fst (uniqueId s) = Suc (lastId s) \<and>
   0 < fst (read f c s) \<and> 0 < fst (write f c s) \<and>
   (\<forall>i s'. defer n f c s = (Inr (Some i), s') \<longrightarrow> 0 < i) \<and>
   (reachable s \<longrightarrow> wf s) \<and>
   (wf s \<longrightarrow> (\<forall>i \<in> set (queue q s). 0 < i) \<and>
      (\<exists>s' tr. run q s = Some (None, s') \<and> queue q s' = [] \<and> trace s' = trace s @ tr \<and>
         (\<forall>i \<in> set (queue q s). (\<exists>r. Invoke (Queued q) i r \<in> set tr) \<or> Cleared i \<in> set tr))) \<and>
   (queue q s = 0 # rest \<longrightarrow> run q s = Some (None, set_queue q rest s))"
proof -
  have 1: "\<forall>i s'. defer n f c s = (Inr (Some i), s') \<longrightarrow> 0 < i"
    unfolding defer_eq by (auto split: if_splits prod.splits option.splits)
  have 2: "wf s \<longrightarrow> (\<forall>i \<in> set (queue q s). 0 < i)"
    unfolding wf_def wf_q_def by blast
  have 3: "wf s \<longrightarrow> (\<exists>s' tr. run q s = Some (None, s') \<and> queue q s' = [] \<and> trace s' = trace s @ tr \<and>
         (\<forall>i \<in> set (queue q s). (\<exists>r. Invoke (Queued q) i r \<in> set tr) \<or> Cleared i \<in> set tr))"
    using run_drains[of s q] by blast
  have 4: "reachable s \<longrightarrow> wf s" using reachable_wf by blast
  have 5: "queue q s = 0 # rest \<longrightarrow> run q s = Some (None, set_queue q rest s)"
    by (subst run.simps) simp
  have 6: "lastId (new_FastDom h) = 0" "fst (uniqueId s) = Suc (lastId s)"
    "0 < fst (read f c s)" "0 < fst (write f c s)"
    by (simp_all add: new_FastDom_def uniqueId_def read_enq write_enq)
  show ?thesis using 1 2 3 4 5 6 by blast
qed

theorem ids_positive_and_drain_ends_on_empty_queue_witness:
  "reachable (turn [ARead [AWrite [] None] None] (new_FastDom False)) \<and>
   wf (turn [ARead [AWrite [] None] None] (new_FastDom False)) \<and>
   fst (defer 1 [] None (turn [ARead [AWrite [] None] None] (new_FastDom False))) = Inr (Some 2) \<and>
   queue QRead (turn [ARead [AWrite [] None] None] (new_FastDom False)) = [1] \<and>
   (\<exists>s'. run QRead (turn [ARead [AWrite [] None] None] (new_FastDom False)) = Some (None, s') \<and>
      queue QRead s' = [] \<and>
      trace s' = [Submitted QRead 1, Invoke (Queued QRead) 1 This, Submitted QWrite 2]) \<and>
   queue QRead ((new_FastDom False)\<lparr>queue_read := [0, 1]\<rparr>) = 0 # [1] \<and>
   map_option (\<lambda>p. queue_read (snd p)) (run QRead ((new_FastDom False)\<lparr>queue_read := [0, 1]\<rparr>)) = Some [1] \<and>
   map_option (\<lambda>p. trace (snd p)) (run QRead ((new_FastDom False)\<lparr>queue_read := [0, 1]\<rparr>)) = Some []"
proof -
  let ?s = "turn [ARead [AWrite [] None] None] (new_FastDom False)"
  let ?z = "(new_FastDom False)\<lparr>queue_read := [0, 1]\<rparr>"
  have r: "reachable ?s"
    using reachable.step[OF reachable.init, where x = "Turn [ARead [AWrite [] None] None]" and s' = ?s and h1 = False] by simp
  have d: "fst (defer 1 [] None ?s) = Inr (Some 2)" by code_simp
  have q: "queue QRead ?s = [1]" by code_simp
  have c: "map_option (\<lambda>p. trace (snd p)) (run QRead ?s) =
      Some [Submitted QRead 1, Invoke (Queued QRead) 1 This, Submitted QWrite 2]"
    by code_simp
  note t = ids_positive_and_drain_ends_on_empty_queue[of False ?s "[]" None 1 QRead "[]"]
  have w: "wf ?s" using t r by blast
  then obtain s' where s': "run QRead ?s = Some (None, s')" "queue QRead s' = []" using t by blast
  have 1: "trace s' = [Submitted QRead 1, Invoke (Queued QRead) 1 This, Submitted QWrite 2]"
    using c s'(1) by simp
  have z: "queue QRead ?z = 0 # [1]" by simp
  note u = ids_positive_and_drain_ends_on_empty_queue[of False ?z "[]" None 1 QRead "[1]"]
  have 2: "run QRead ?z = Some (None, set_queue QRead [1] ?z)" using u z by blast
  have 3: "map_option (\<lambda>p. queue_read (snd p)) (run QRead ?z) = Some [1]"
    "map_option (\<lambda>p. trace (snd p)) (run QRead ?z) = Some []"
    unfolding 2 by (simp_all add: new_FastDom_def)
  show ?thesis using r w d q s' 1 z 3 by blast
qed

end
